theory Spec2Isabelle
  imports Complex_Main
begin

section \<open>Sparse experience replay: the training and evaluation driver (main.py)\<close>

text \<open>
  The driver trains a text classifier over a sequential stream of batches, pushes every
  batch into an episodic memory and, every \<open>REPLAY_FREQ\<close> steps, trains on a batch
  sampled from that memory instead of the live one.  The embedding below follows
  \<^verbatim>\<open>main.py\<close> function by function.  Effects are explicit: every procedure takes the
  program state and returns it updated, together with the exception it raised, if any
  (a Python exception leaves the effects made so far in place).
\<close>

subsection \<open>Data\<close>

text \<open>
  An example is one row of the three parallel tensors \<open>(content, attn_masks, labels)\<close> a
  data loader yields; a batch is the list of its rows, so that \<open>content.size(0)\<close> is the
  length of the list.
\<close>

record example =
  content :: "int list"
  attention_mask :: "int list"
  label :: int

type_synonym batch = "example list"

datatype pyerror =
    EmptyMemory
  | ZeroDivisionError
  | TypeError
  | NameError
  | FileNotFoundError
  | ValueError

subsection \<open>Episodic memory\<close>

text \<open>
  Modelled from the spec: the class \<open>ReplayMemory\<close> is imported from
  \<^verbatim>\<open>baselines.replay\<close>, which is not among the sources.  The spec describes a bounded
  collection of capacity \<open>C\<close> with reservoir insertion (while there is room an insertion
  always succeeds; afterwards the \<open>N\<close>-th example ever observed replaces a uniformly
  chosen slot with probability \<open>C/N\<close>) and uniform sampling with replacement that fails
  on an empty memory.  Randomness is an explicit source \<open>rnd\<close> of raw draws, read at
  position \<open>draws\<close>; a uniform integer below \<open>n\<close> is the raw draw modulo \<open>n\<close>.  The
  field \<open>memory\<close> is the attribute \<^verbatim>\<open>memory.memory\<close> the trainer hands to the
  checkpoint.
\<close>

record replay_memory =
  capacity :: nat
  memory :: "example list"
  seen :: nat
  draws :: nat

text \<open>Modelled from the spec: a memory as created at run start, holding nothing.\<close>

definition ReplayMemory :: "nat \<Rightarrow> replay_memory" where
  "ReplayMemory C = \<lparr>capacity = C, memory = [], seen = 0, draws = 0\<rparr>"

text \<open>Modelled from the spec: reservoir insertion of one example.\<close>

definition push_example :: "(nat \<Rightarrow> nat) \<Rightarrow> replay_memory \<Rightarrow> example \<Rightarrow> replay_memory" where
  "push_example rnd m e =
     (let n = Suc (seen m) in
      if length (memory m) < capacity m
      then m\<lparr>memory := memory m @ [e], seen := n\<rparr>
      else (let j = rnd (draws m) mod n in
            if j < capacity m
            then m\<lparr>memory := (memory m)[j := e], seen := n, draws := Suc (draws m)\<rparr>
            else m\<lparr>seen := n, draws := Suc (draws m)\<rparr>))"

text \<open>Modelled from the spec: \<open>push(batch)\<close> inserts each example of the batch in order.\<close>

fun push :: "(nat \<Rightarrow> nat) \<Rightarrow> replay_memory \<Rightarrow> batch \<Rightarrow> replay_memory" where
  "push rnd m [] = m"
| "push rnd m (e # es) = push rnd (push_example rnd m e) es"

text \<open>
  Modelled from the spec: \<open>sample(sample_size)\<close> returns exactly \<open>sample_size\<close> examples
  drawn with replacement from the current contents, and fails on an empty memory,
  leaving it unchanged.
\<close>

definition drawn :: "(nat \<Rightarrow> nat) \<Rightarrow> replay_memory \<Rightarrow> nat \<Rightarrow> batch" where
  "drawn rnd m sample_size =
     map (\<lambda>i. memory m ! (rnd (draws m + i) mod length (memory m))) [0..<sample_size]"

definition sample :: "(nat \<Rightarrow> nat) \<Rightarrow> replay_memory \<Rightarrow> nat \<Rightarrow> (pyerror + batch) \<times> replay_memory" where
  "sample rnd m sample_size =
     (if memory m = [] then (Inl EmptyMemory, m)
      else (Inr (drawn rnd m sample_size), m\<lparr>draws := draws m + sample_size\<rparr>))"

subsection \<open>The trainer\<close>

definition REPLAY_FREQ :: nat where
  "REPLAY_FREQ = 180"

text \<open>
  The classifier is the class \<open>ReplayModel\<close> of \<^verbatim>\<open>baselines.replay\<close>, opaque to the
  driver.  It is a parameter of the model: \<open>classify\<close> gives the loss of a batch under
  the current trainable state \<open>'p\<close> (the weights together with the optimizer's moments),
  \<open>apply_step\<close> the trainable state after \<open>loss.backward()\<close> and \<open>optimizer.step()\<close>
  on that batch, \<open>infer\<close> the rows of logits for the (content, mask) rows of a batch.
  \<open>save_state\<close> is the value of the trainable state itself.
\<close>

record ('p, 'l, 'a) ReplayModel =
  classify :: "'p \<Rightarrow> batch \<Rightarrow> 'l"
  apply_step :: "'p \<Rightarrow> batch \<Rightarrow> 'p"
  infer :: "'p \<Rightarrow> (int list \<times> int list) list \<Rightarrow> 'a list list"

text \<open>
  The calls the driver makes on its collaborators are recorded, in order, in a trace.
  \<open>EvSample k xs\<close> is a call \<open>memory.sample(sample_size=k)\<close> made when the memory held
  \<open>xs\<close>.  \<open>EvClassify src b\<close> is a call \<open>model.classify\<close> on the batch \<open>b\<close>, which
  the branch taken at line 87 bound either to a sample of the memory (\<open>Replay\<close>) or to
  the batch of the data loader (\<open>Live\<close>).
\<close>

datatype source = Live | Replay

datatype event =
    EvPush batch
  | EvSample nat "example list"
  | EvZeroGrad
  | EvClassify source batch
  | EvBackward
  | EvOptStep
  | EvSaveState
  | EvMkdir string
  | EvTorchSave string
  | EvNpSave string
  | EvInfer "(int list \<times> int list) list"
  | EvPlot
  | EvSavefig string

datatype 'p stored = ModelDict 'p | MemoryArray "example list"

text \<open>
  The state of a run: the trainable state of the classifier, the episodic memory, the
  trace, the list \<open>train_loss_set\<close>, the two counters of the epoch and the file system
  (directories and files by path).  Calls that only select a device or a mode or print
  are left out; the loss sum \<open>tr_loss\<close> is the sum of the losses the epoch appended to
  \<open>train_loss_set\<close> and is only printed.
\<close>

record ('p, 'l) run_state =
  params :: 'p
  mem :: replay_memory
  trace :: "event list"
  train_loss_set :: "'l list"
  nb_tr_examples :: nat
  nb_tr_steps :: nat
  dirs :: "string set"
  files :: "string \<Rightarrow> 'p stored option"

text \<open>
  The body of the loop over \<open>enumerate(train_dataloader)\<close> (lines 78 to 115): the batch
  is pushed, then the step number decides between a sample of 64 from the memory and the
  batch itself, then the chosen batch is trained on and counted.
\<close>

definition train_step ::
  "('p, 'l, 'a) ReplayModel \<Rightarrow> (nat \<Rightarrow> nat) \<Rightarrow> nat \<Rightarrow> batch \<Rightarrow> ('p, 'l) run_state
     \<Rightarrow> pyerror option \<times> ('p, 'l) run_state" where
  "train_step model rnd step batch s =
     (let batch_cp = batch;
          s1 = s\<lparr>mem := push rnd (mem s) batch_cp, trace := trace s @ [EvPush batch_cp]\<rparr>;
          (src, r, s2) =
            (if (step + 1) mod REPLAY_FREQ = 0
             then (case sample rnd (mem s1) 64 of
                     (res, m') \<Rightarrow>
                       (Replay, res,
                        s1\<lparr>mem := m', trace := trace s1 @ [EvSample 64 (memory (mem s1))]\<rparr>))
             else (Live, Inr batch_cp, s1))
      in case r of
           Inl e \<Rightarrow> (Some e, s2)
         | Inr tb \<Rightarrow>
             (None,
              s2\<lparr>params := apply_step model (params s2) tb,
                 trace := trace s2 @ [EvZeroGrad, EvClassify src tb, EvBackward, EvOptStep],
                 train_loss_set := train_loss_set s2 @ [classify model (params s2) tb],
                 nb_tr_examples := nb_tr_examples s2 + length tb,
                 nb_tr_steps := nb_tr_steps s2 + 1\<rparr>))"

fun train_loop ::
  "('p, 'l, 'a) ReplayModel \<Rightarrow> (nat \<Rightarrow> nat) \<Rightarrow> nat \<Rightarrow> batch list \<Rightarrow> ('p, 'l) run_state
     \<Rightarrow> pyerror option \<times> ('p, 'l) run_state" where
  "train_loop model rnd step [] s = (None, s)"
| "train_loop model rnd step (batch # rest) s =
     (case train_step model rnd step batch s of
        (Some e, s') \<Rightarrow> (Some e, s')
      | (None, s') \<Rightarrow> train_loop model rnd (Suc step) rest s')"

subsection \<open>Checkpoints\<close>

definition MODEL_NAME :: string where
  "MODEL_NAME = ''REPLAY''"

fun str_nat :: "nat \<Rightarrow> string" where
  "str_nat n =
     (if n < 10 then [''0123456789'' ! n]
      else str_nat (n div 10) @ [''0123456789'' ! (n mod 10)])"

declare str_nat.simps [simp del]

definition str :: "int \<Rightarrow> string" where
  "str i = (if i < 0 then CHR ''-'' # str_nat (nat (- i)) else str_nat (nat i))"

definition path_exists :: "('p, 'l) run_state \<Rightarrow> string \<Rightarrow> bool" where
  "path_exists s p = (p \<in> dirs s \<or> files s p \<noteq> None)"

text \<open>
  \<open>os.mkdir\<close>, \<open>torch.save\<close> and \<open>np.save\<close> are taken to succeed: the base
  location exists and is writable.  \<open>np.save\<close> appends the suffix \<^verbatim>\<open>.npy\<close>.
\<close>

definition os_mkdir :: "string \<Rightarrow> ('p, 'l) run_state \<Rightarrow> ('p, 'l) run_state" where
  "os_mkdir d s = s\<lparr>trace := trace s @ [EvMkdir d], dirs := insert d (dirs s)\<rparr>"

definition path_join :: "string \<Rightarrow> string \<Rightarrow> string" where
  "path_join a b =
     (if b \<noteq> [] \<and> hd b = CHR ''/'' then b
      else if a = [] \<or> last a = CHR ''/'' then a @ b
      else a @ ''/'' @ b)"

definition torch_save :: "'p \<Rightarrow> string \<Rightarrow> ('p, 'l) run_state \<Rightarrow> ('p, 'l) run_state" where
  "torch_save obj p s =
     s\<lparr>trace := trace s @ [EvTorchSave p], files := (files s)(p \<mapsto> ModelDict obj)\<rparr>"

definition np_save :: "string \<Rightarrow> example list \<Rightarrow> ('p, 'l) run_state \<Rightarrow> ('p, 'l) run_state" where
  "np_save p arr s =
     s\<lparr>trace := trace s @ [EvNpSave (p @ ''.npy'')],
       files := (files s)(p @ ''.npy'' \<mapsto> MemoryArray arr)\<rparr>"

definition torch_load :: "string \<Rightarrow> ('p, 'l) run_state \<Rightarrow> pyerror + 'p" where
  "torch_load p s =
     (case files s p of
        Some (ModelDict d) \<Rightarrow> Inr d
      | _ \<Rightarrow> Inl FileNotFoundError)"

text \<open>
  \<open>save_checkpoint(model_dict, order, epoch, memory=None, base_loc='../model_checkpoints/')\<close>;
  an argument left out at the call is \<open>None\<close> here.
\<close>

definition save_checkpoint ::
  "'p \<Rightarrow> int \<Rightarrow> int \<Rightarrow> example list option \<Rightarrow> string option \<Rightarrow> ('p, 'l) run_state
     \<Rightarrow> ('p, 'l) run_state" where
  "save_checkpoint model_dict order epoch memory_arg base_loc_arg s =
     (let base_loc = (case base_loc_arg of None \<Rightarrow> ''../model_checkpoints/'' | Some b \<Rightarrow> b);
          checkpoints_dir = base_loc @ MODEL_NAME;
          s1 = (if \<not> path_exists s checkpoints_dir then os_mkdir checkpoints_dir s else s);
          checkpoints_file = ''classifier_order_'' @ str order @ ''_epoch_'' @ str epoch @ ''.pth'';
          s2 = torch_save model_dict (path_join checkpoints_dir checkpoints_file) s1
      in case memory_arg of
           None \<Rightarrow> s2
         | Some m \<Rightarrow> np_save (checkpoints_dir @ ''/epoch_'' @ str epoch) m s2)"

text \<open>
  One pass of the loop over \<open>trange(args.epochs)\<close> (lines 69 to 121).  Printing the
  mean loss divides by \<open>nb_tr_steps\<close>, which raises on an empty data loader.
\<close>

definition train_epoch ::
  "('p, 'l, 'a) ReplayModel \<Rightarrow> (nat \<Rightarrow> nat) \<Rightarrow> int \<Rightarrow> batch list \<Rightarrow> nat \<Rightarrow> ('p, 'l) run_state
     \<Rightarrow> pyerror option \<times> ('p, 'l) run_state" where
  "train_epoch model rnd order train_dataloader epoch s =
     (case train_loop model rnd 0 train_dataloader (s\<lparr>nb_tr_examples := 0, nb_tr_steps := 0\<rparr>) of
        (Some e, s1) \<Rightarrow> (Some e, s1)
      | (None, s1) \<Rightarrow>
          if nb_tr_steps s1 = 0 then (Some ZeroDivisionError, s1)
          else (let s2 = s1\<lparr>trace := trace s1 @ [EvSaveState]\<rparr>;
                    model_dict = params s2
                in (None,
                    save_checkpoint model_dict order (int epoch + 1)
                      (Some (memory (mem s2))) None s2)))"

fun train_epochs ::
  "('p, 'l, 'a) ReplayModel \<Rightarrow> (nat \<Rightarrow> nat) \<Rightarrow> int \<Rightarrow> batch list \<Rightarrow> nat list \<Rightarrow> ('p, 'l) run_state
     \<Rightarrow> pyerror option \<times> ('p, 'l) run_state" where
  "train_epochs model rnd order train_dataloader [] s = (None, s)"
| "train_epochs model rnd order train_dataloader (epoch # rest) s =
     (case train_epoch model rnd order train_dataloader epoch s of
        (Some e, s') \<Rightarrow> (Some e, s')
      | (None, s') \<Rightarrow> train_epochs model rnd order train_dataloader rest s')"

subsection \<open>The loss plot and the training entry point\<close>

text \<open>
  \<open>save_trainloss(train_loss_set, order, base_loc='../loss_images/')\<close>.  As for
  \<open>save_checkpoint\<close>, an argument left out at the call is \<open>None\<close>.  The parameter
  \<open>order\<close> has no default: a call that leaves it out raises \<open>TypeError\<close> when the
  arguments are bound, before anything of the body runs.  The five \<open>plt\<close> calls that draw
  the figure are one event.  The call of \<open>plt.savefig\<close> at line 204 passes two positional
  arguments, the list of losses and the path of the image, where \<open>plt.savefig\<close> takes
  the file name only: it raises \<open>TypeError\<close> and saves nothing, so that the event
  \<open>EvSavefig\<close> of a figure saved is recorded by no run.
\<close>

definition save_trainloss ::
  "'l list \<Rightarrow> int option \<Rightarrow> string option \<Rightarrow> ('p, 'l) run_state
     \<Rightarrow> pyerror option \<times> ('p, 'l) run_state" where
  "save_trainloss loss_set order_arg base_loc_arg s =
     (case order_arg of
        None \<Rightarrow> (Some TypeError, s)
      | Some order \<Rightarrow>
          (let base_loc = (case base_loc_arg of None \<Rightarrow> ''../loss_images/'' | Some b \<Rightarrow> b);
               s1 = s\<lparr>trace := trace s @ [EvPlot]\<rparr>;
               image_dir = base_loc @ MODEL_NAME;
               s2 = (if \<not> path_exists s1 image_dir then os_mkdir image_dir s1 else s1);
               image_file = image_dir @ ''/order_'' @ str order @ ''_train_loss.png''
           in (Some TypeError, s2)))"

text \<open>
  \<open>train(order, model, memory)\<close>: the classifier and the memory are the fields
  \<open>params\<close> and \<open>mem\<close> of the state, \<open>train_dataloader\<close> is the list of batches the
  sequential data loader yields in every epoch and \<open>epochs\<close> is \<open>args.epochs\<close>.  The
  call at line 123 passes the list of losses only.
\<close>

definition train ::
  "('p, 'l, 'a) ReplayModel \<Rightarrow> (nat \<Rightarrow> nat) \<Rightarrow> batch list \<Rightarrow> int \<Rightarrow> int \<Rightarrow> ('p, 'l) run_state
     \<Rightarrow> pyerror option \<times> ('p, 'l) run_state" where
  "train model rnd train_dataloader epochs order s =
     (case train_epochs model rnd order train_dataloader [0..<nat epochs]
             (s\<lparr>train_loss_set := []\<rparr>) of
        (Some e, s1) \<Rightarrow> (Some e, s1)
      | (None, s1) \<Rightarrow> save_trainloss (train_loss_set s1) None None s1)"

subsection \<open>The evaluator\<close>

text \<open>
  \<open>np.argmax\<close> along a row: the index of the first greatest entry.  Accuracies are
  exact rationals; the source computes them in double precision.
\<close>

fun argmax_from :: "nat \<Rightarrow> 'a::linorder \<Rightarrow> nat \<Rightarrow> 'a list \<Rightarrow> nat" where
  "argmax_from best_i best i [] = best_i"
| "argmax_from best_i best i (x # xs) =
     (if best < x then argmax_from i x (Suc i) xs else argmax_from best_i best (Suc i) xs)"

definition argmax :: "'a::linorder list \<Rightarrow> nat" where
  "argmax row = (case row of [] \<Rightarrow> 0 | x # xs \<Rightarrow> argmax_from 0 x 1 xs)"

text \<open>
  \<open>flat_accuracy(preds, labels)\<close>.  An empty row of logits has no \<open>argmax\<close>; the
  driver expects one row of logits for each label (line 181), and another number of rows
  is an error here.  For an empty batch numpy would give \<open>nan\<close>; a data loader yields no
  empty batch.
\<close>

definition flat_accuracy :: "'a::linorder list list \<Rightarrow> int list \<Rightarrow> pyerror + rat" where
  "flat_accuracy preds labels =
     (if [] \<in> set preds then Inl ValueError
      else (let pred_flat = map argmax preds;
                labels_flat = labels
            in if length pred_flat \<noteq> length labels_flat then Inl ValueError
               else Inr (of_nat (length (filter (\<lambda>(p, l). int p = l) (zip pred_flat labels_flat)))
                         / of_nat (length labels_flat))))"

text \<open>
  The loop of \<open>test\<close> (lines 166 to 185) over the running sum, the number of steps and
  the trace.
\<close>

fun test_loop ::
  "('p, 'l, 'a::linorder) ReplayModel \<Rightarrow> 'p \<Rightarrow> batch list \<Rightarrow> rat \<times> nat \<times> event list
     \<Rightarrow> pyerror option \<times> rat \<times> nat \<times> event list" where
  "test_loop model p [] acc = (None, acc)"
| "test_loop model p (batch # rest) (total_correct, t_steps, tr) =
     (let rows = map (\<lambda>e. (content e, attention_mask e)) batch;
          logits = infer model p rows;
          labels = map label batch
      in case flat_accuracy logits labels of
           Inl e \<Rightarrow> (Some e, total_correct, t_steps, tr @ [EvInfer rows])
         | Inr tmp_correct \<Rightarrow>
             test_loop model p rest (total_correct + tmp_correct, t_steps + 1, tr @ [EvInfer rows]))"

text \<open>
  \<open>test(order, model)\<close>; the value is the accuracy it prints.  \<open>test_dataloader\<close> is
  the list of batches in the order the shuffling data loader yields them.
\<close>

definition test ::
  "('p, 'l, 'a::linorder) ReplayModel \<Rightarrow> 'p \<Rightarrow> batch list \<Rightarrow> event list
     \<Rightarrow> (pyerror + rat) \<times> event list" where
  "test model p test_dataloader tr =
     (case test_loop model p test_dataloader (0, 0, tr) of
        (Some e, total_correct, t_steps, tr') \<Rightarrow> (Inl e, tr')
      | (None, total_correct, t_steps, tr') \<Rightarrow>
          if t_steps = 0 then (Inl ZeroDivisionError, tr')
          else (Inr (total_correct / of_nat t_steps), tr'))"

subsection \<open>The entry point\<close>

text \<open>
  The names bound at module level when the entry point runs: the imports, the
  assignments and the functions of \<^verbatim>\<open>main.py\<close>, and the three names the entry point
  binds itself.  A name that is not among them (and is no builtin) raises \<open>NameError\<close>.
\<close>

definition module_names :: "string list" where
  "module_names =
     [''torch'', ''data'', ''DataSet'', ''argparse'', ''ReplayMemory'', ''ReplayModel'',
      ''transformers'', ''trange'', ''tqdm'', ''time'', ''copy'', ''plt'', ''np'', ''os'',
      ''use_cuda'', ''parser'', ''args'', ''LEARNING_RATE'', ''MODEL_NAME'', ''REPLAY_FREQ'',
      ''train'', ''save_checkpoint'', ''flat_accuracy'', ''test'', ''save_trainloss'',
      ''model'', ''memory'', ''model_state'']"

definition lookup_name :: "string \<Rightarrow> pyerror option" where
  "lookup_name n = (if n \<in> set module_names then None else Some NameError)"

text \<open>
  The block under \<open>if __name__ == '__main__'\<close>.  The state passed in holds the
  parameters of a fresh \<open>ReplayModel()\<close>; \<open>C\<close> is the capacity of a fresh
  \<open>ReplayMemory()\<close>.
\<close>

definition main ::
  "string \<Rightarrow> int \<Rightarrow> int \<Rightarrow> ('p, 'l, 'a::linorder) ReplayModel \<Rightarrow> nat \<Rightarrow> (nat \<Rightarrow> nat)
     \<Rightarrow> batch list \<Rightarrow> batch list \<Rightarrow> ('p, 'l) run_state \<Rightarrow> pyerror option \<times> ('p, 'l) run_state" where
  "main mode order epochs model C rnd train_dataloader test_dataloader s =
     (case (if mode = ''train''
            then train model rnd train_dataloader epochs order (s\<lparr>mem := ReplayMemory C\<rparr>)
            else (None, s)) of
        (Some e, s1) \<Rightarrow> (Some e, s1)
      | (None, s1) \<Rightarrow>
          if mode = ''test''
          then (case torch_load ''../model_checkpoints/enc_dec/classifier_order_1_epoch_4.pth'' s1 of
                  Inl e \<Rightarrow> (Some e, s1)
                | Inr model_state \<Rightarrow>
                    (case lookup_name ''EncDec'' of
                       Some e \<Rightarrow> (Some e, s1)
                     | None \<Rightarrow>
                         (case test model model_state test_dataloader (trace s1) of
                            (Inl e, tr) \<Rightarrow> (Some e, s1\<lparr>trace := tr\<rparr>)
                          | (Inr acc, tr) \<Rightarrow> (None, s1\<lparr>trace := tr\<rparr>))))
          else (None, s1))"

subsection \<open>Reading a trace\<close>

text \<open>
  The events a procedure added to the trace, and the projections of a trace on the
  batches pushed, the samples requested, the batches trained on and the events of a
  gradient step.
\<close>

definition added :: "('p, 'l) run_state \<Rightarrow> ('p, 'l) run_state \<Rightarrow> event list" where
  "added s s' = drop (length (trace s)) (trace s')"

definition pushes :: "event list \<Rightarrow> batch list" where
  "pushes tr = concat (map (\<lambda>e. case e of EvPush b \<Rightarrow> [b] | _ \<Rightarrow> []) tr)"

definition samples :: "event list \<Rightarrow> (nat \<times> example list) list" where
  "samples tr = concat (map (\<lambda>e. case e of EvSample k xs \<Rightarrow> [(k, xs)] | _ \<Rightarrow> []) tr)"

definition classified :: "event list \<Rightarrow> (source \<times> batch) list" where
  "classified tr = concat (map (\<lambda>e. case e of EvClassify src b \<Rightarrow> [(src, b)] | _ \<Rightarrow> []) tr)"

definition sources :: "event list \<Rightarrow> source list" where
  "sources tr = map fst (classified tr)"

definition is_gradient_event :: "event \<Rightarrow> bool" where
  "is_gradient_event e =
     (case e of EvZeroGrad \<Rightarrow> True | EvClassify src b \<Rightarrow> True | EvBackward \<Rightarrow> True
      | EvOptStep \<Rightarrow> True | _ \<Rightarrow> False)"

text \<open>
  The calls of one gradient step (lines 103 to 110) on the batch \<open>snd c\<close> that came
  from \<open>fst c\<close>.
\<close>

definition gradient_step :: "source \<times> batch \<Rightarrow> event list" where
  "gradient_step c = [EvZeroGrad, EvClassify (fst c) (snd c), EvBackward, EvOptStep]"

text \<open>
  The memory each step of the loop decides on, which is the memory as the push of the
  batch of the step left it: for the steps over the batches \<open>bs\<close> from the memory
  \<open>m\<close>, the first of them at 0-based index \<open>step\<close>.  After a replay step the memory
  is as \<open>memory.sample\<close> left it.
\<close>

fun memories :: "(nat \<Rightarrow> nat) \<Rightarrow> nat \<Rightarrow> replay_memory \<Rightarrow> batch list \<Rightarrow> replay_memory list" where
  "memories rnd step m [] = []"
| "memories rnd step m (b # bs) =
     (let m1 = push rnd m b
      in m1 # memories rnd (Suc step)
                (if (step + 1) mod REPLAY_FREQ = 0 then snd (sample rnd m1 64) else m1) bs)"

text \<open>
  What the step at 0-based index \<open>i\<close> over the batch \<open>b\<close> hands to \<open>model.classify\<close>,
  where \<open>m\<close> is the memory after the push of \<open>b\<close>: on a replay step the batch that
  \<open>memory.sample(sample_size=64)\<close> returns on \<open>m\<close>, the batch itself otherwise.
\<close>

definition trains_as :: "(nat \<Rightarrow> nat) \<Rightarrow> source \<times> batch \<Rightarrow> nat \<times> batch \<times> replay_memory \<Rightarrow> bool" where
  "trains_as rnd c ibm =
     (case ibm of
        (i, b, m) \<Rightarrow>
          if (i + 1) mod REPLAY_FREQ = 0
          then fst c = Replay \<and> fst (sample rnd m 64) = Inr (snd c)
          else c = (Live, b))"

text \<open>The calls that draw or save the loss plot.\<close>

definition is_plot_event :: "event \<Rightarrow> bool" where
  "is_plot_event e = (case e of EvPlot \<Rightarrow> True | EvSavefig p \<Rightarrow> True | _ \<Rightarrow> False)"


text \<open>
  What the evaluator is to report, in the words of the specification: the accuracy of a
  batch is the number of its examples whose label is the \<open>argmax\<close> of the prediction
  for the example, over the size of the batch; the result is the arithmetic mean of
  these accuracies over the batches.
\<close>

definition batch_accuracy :: "('p, 'l, 'a::linorder) ReplayModel \<Rightarrow> 'p \<Rightarrow> batch \<Rightarrow> rat" where
  "batch_accuracy model p b =
     of_nat (length (filter (\<lambda>(prediction, e). int (argmax prediction) = label e)
                       (zip (infer model p (map (\<lambda>e. (content e, attention_mask e)) b)) b)))
     / of_nat (length b)"

definition mean_accuracy :: "('p, 'l, 'a::linorder) ReplayModel \<Rightarrow> 'p \<Rightarrow> batch list \<Rightarrow> rat" where
  "mean_accuracy model p bs = sum_list (map (batch_accuracy model p) bs) / of_nat (length bs)"

subsection \<open>Concrete inputs\<close>

text \<open>
  Inputs on which the theorems below are instantiated: distinct examples, a data loader
  of \<open>n\<close> single-example batches, a classifier whose trainable state counts its
  updates, and the state at the start of a run with a fresh memory of capacity \<open>C\<close>.
\<close>

definition ex :: "nat \<Rightarrow> example" where
  "ex i = \<lparr>content = [int i], attention_mask = [1], label = int i\<rparr>"

definition singles :: "nat \<Rightarrow> batch list" where
  "singles n = map (\<lambda>i. [ex i]) [0..<n]"

definition model0 :: "(nat, nat, int) ReplayModel" where
  "model0 = \<lparr>classify = (\<lambda>p b. length b), apply_step = (\<lambda>p b. Suc p),
             infer = (\<lambda>p rows. map (\<lambda>r. [0, 1]) rows)\<rparr>"

definition fresh :: "nat \<Rightarrow> (nat, nat) run_state" where
  "fresh C = \<lparr>params = 0, mem = ReplayMemory C, trace = [], train_loss_set = [],
              nb_tr_examples = 0, nb_tr_steps = 0, dirs = {}, files = Map.empty\<rparr>"

section \<open>Properties of the episodic memory\<close>

lemma capacity_push_example [simp]: "capacity (push_example rnd m e) = capacity m"
  by (simp add: push_example_def Let_def)

lemma capacity_push [simp]: "capacity (push rnd m b) = capacity m"
  by (induction b arbitrary: m) simp_all

lemma length_push_example:
  "length (memory (push_example rnd m e)) =
     (if length (memory m) < capacity m then Suc (length (memory m)) else length (memory m))"
  by (simp add: push_example_def Let_def)

lemma length_push_mono: "length (memory m) \<le> length (memory (push rnd m b))"
proof (induction b arbitrary: m)
  case Nil
  show ?case by simp
next
  case (Cons e es)
  have "length (memory m) \<le> length (memory (push_example rnd m e))"
    by (simp add: length_push_example)
  also have "\<dots> \<le> length (memory (push rnd (push_example rnd m e) es))"
    by (rule Cons.IH)
  finally show ?case by simp
qed

lemma length_push:
  "length (memory m) \<le> capacity m \<Longrightarrow>
   length (memory (push rnd m b)) = min (capacity m) (length (memory m) + length b)"
proof (induction b arbitrary: m)
  case Nil
  then show ?case by simp
next
  case (Cons e es)
  have inv: "length (memory (push_example rnd m e)) \<le> capacity (push_example rnd m e)"
    using Cons.prems by (simp add: length_push_example)
  show ?case
    using Cons.IH [OF inv] Cons.prems by (simp add: length_push_example)
qed

lemma push_nonempty:
  assumes "0 < capacity m" and "b \<noteq> []"
  shows "memory (push rnd m b) \<noteq> []"
proof -
  obtain e es where b: "b = e # es" using assms(2) by (cases b) auto
  have "0 < length (memory (push_example rnd m e))"
    using assms(1) by (auto simp add: length_push_example)
  also have "\<dots> \<le> length (memory (push rnd (push_example rnd m e) es))"
    by (rule length_push_mono)
  finally show ?thesis by (simp add: b)
qed

text \<open>A push that leaves the memory below its capacity has stored the whole batch.\<close>

lemma push_appends:
  "length (memory (push rnd m b)) < capacity m \<Longrightarrow> memory (push rnd m b) = memory m @ b"
proof (induction b arbitrary: m)
  case Nil
  show ?case by simp
next
  case (Cons e es)
  let ?m1 = "push_example rnd m e"
  have lt1: "length (memory (push rnd ?m1 es)) < capacity ?m1"
    using Cons.prems by simp
  have "length (memory ?m1) \<le> length (memory (push rnd ?m1 es))"
    by (rule length_push_mono)
  with lt1 have "length (memory ?m1) < capacity m" by simp
  then have room: "length (memory m) < capacity m"
    by (simp add: length_push_example split: if_splits)
  then have "memory ?m1 = memory m @ [e]"
    by (simp add: push_example_def Let_def)
  with Cons.IH [OF lt1] show ?case by simp
qed

lemma foldl_push_capacity [simp]: "capacity (foldl (push rnd) m bs) = capacity m"
  by (induction bs arbitrary: m) simp_all

lemma foldl_push_length:
  "length (memory m) \<le> capacity m \<Longrightarrow>
   length (memory (foldl (push rnd) m bs)) =
     min (capacity m) (length (memory m) + length (concat bs))"
proof (induction bs arbitrary: m)
  case Nil
  then show ?case by simp
next
  case (Cons b bs)
  have inv: "length (memory (push rnd m b)) \<le> capacity (push rnd m b)"
    using Cons.prems by (simp add: length_push)
  show ?case
    using Cons.IH [OF inv] Cons.prems by (simp add: length_push)
qed

text \<open>
  C7.  Whatever batches are pushed, one after the other, into a memory that holds at
  most its capacity (a fresh one holds nothing), and whatever the random draws, the
  number of stored examples stays at most the capacity: it is the smaller of the
  capacity and the number of examples held at the start plus those pushed.  Pushing 150
  single-example batches into a fresh memory of capacity 100 leaves 100 examples.
\<close>

theorem memory_capacity_invariant:
  assumes "length (memory m) \<le> capacity m"
  shows "length (memory (foldl (push rnd) m bs)) \<le> capacity m \<and>
         length (memory (foldl (push rnd) m bs)) =
           min (capacity m) (length (memory m) + length (concat bs))"
  using foldl_push_length [OF assms, of rnd bs] by simp

theorem memory_capacity_invariant_witness:
  "length (memory (ReplayMemory 100)) \<le> capacity (ReplayMemory 100) \<and>
   length (memory (foldl (push (\<lambda>n. 7 * n + 3)) (ReplayMemory 100)
     (map (\<lambda>i. [\<lparr>content = [int i], attention_mask = [1], label = 0\<rparr>]) [0..<150]))) = 100"
proof -
  have h: "length (memory (ReplayMemory 100)) \<le> capacity (ReplayMemory 100)"
    by (simp add: ReplayMemory_def)
  show ?thesis
    using h memory_capacity_invariant [OF h, of "\<lambda>n. 7 * n + 3"
      "map (\<lambda>i. [\<lparr>content = [int i], attention_mask = [1], label = 0\<rparr>]) [0..<150]"]
    by (simp add: ReplayMemory_def length_concat comp_def)
qed

section \<open>Properties of the training loop\<close>

text \<open>
  Projections distribute over the concatenation of traces; a step and a loop only
  extend the trace; a step over a non-empty batch and a memory of positive capacity
  raises nothing.
\<close>

lemma pushes_append [simp]: "pushes (xs @ ys) = pushes xs @ pushes ys"
  by (simp add: pushes_def)

lemma samples_append [simp]: "samples (xs @ ys) = samples xs @ samples ys"
  by (simp add: samples_def)

lemma classified_append [simp]: "classified (xs @ ys) = classified xs @ classified ys"
  by (simp add: classified_def)

lemma sources_append [simp]: "sources (xs @ ys) = sources xs @ sources ys"
  by (simp add: sources_def)

lemma added_trace:
  "trace s1 = trace s @ ext \<Longrightarrow> added s s1 = ext"
  by (simp add: added_def)

lemma train_step_live:
  assumes "(step + 1) mod REPLAY_FREQ \<noteq> 0"
  shows "train_step model rnd step b s =
     (None,
      s\<lparr>params := apply_step model (params s) b,
        mem := push rnd (mem s) b,
        trace := trace s @ [EvPush b, EvZeroGrad, EvClassify Live b, EvBackward, EvOptStep],
        train_loss_set := train_loss_set s @ [classify model (params s) b],
        nb_tr_examples := nb_tr_examples s + length b,
        nb_tr_steps := nb_tr_steps s + 1\<rparr>)"
  using assms by (simp add: train_step_def Let_def)

lemma train_step_replay:
  assumes "(step + 1) mod REPLAY_FREQ = 0" and "memory (push rnd (mem s) b) \<noteq> []"
  shows "train_step model rnd step b s =
     (None,
      s\<lparr>params := apply_step model (params s) (drawn rnd (push rnd (mem s) b) 64),
        mem := (push rnd (mem s) b)\<lparr>draws := draws (push rnd (mem s) b) + 64\<rparr>,
        trace := trace s @ [EvPush b, EvSample 64 (memory (push rnd (mem s) b)),
                   EvZeroGrad, EvClassify Replay (drawn rnd (push rnd (mem s) b) 64),
                   EvBackward, EvOptStep],
        train_loss_set := train_loss_set s @
                   [classify model (params s) (drawn rnd (push rnd (mem s) b) 64)],
        nb_tr_examples := nb_tr_examples s + 64,
        nb_tr_steps := nb_tr_steps s + 1\<rparr>)"
  using assms by (simp add: train_step_def Let_def sample_def drawn_def)

lemma train_step_empty:
  assumes "(step + 1) mod REPLAY_FREQ = 0" and "memory (push rnd (mem s) b) = []"
  shows "train_step model rnd step b s =
     (Some EmptyMemory,
      s\<lparr>mem := push rnd (mem s) b,
        trace := trace s @ [EvPush b, EvSample 64 []]\<rparr>)"
  using assms by (simp add: train_step_def Let_def sample_def)


lemma train_step_prefix: "\<exists>ext. trace (snd (train_step model rnd step b s)) = trace s @ ext"
proof (cases "(step + 1) mod REPLAY_FREQ = 0")
  case False
  then show ?thesis by (simp add: train_step_live)
next
  case True
  show ?thesis
  proof (cases "memory (push rnd (mem s) b) = []")
    case True
    with \<open>(step + 1) mod REPLAY_FREQ = 0\<close> show ?thesis by (simp add: train_step_empty)
  next
    case False
    with \<open>(step + 1) mod REPLAY_FREQ = 0\<close> show ?thesis by (simp add: train_step_replay)
  qed
qed

lemma train_loop_prefix: "\<exists>ext. trace (snd (train_loop model rnd step bs s)) = trace s @ ext"
proof (induction bs arbitrary: step s)
  case Nil
  show ?case by simp
next
  case (Cons b bs)
  obtain r s1 where st: "train_step model rnd step b s = (r, s1)" by (cases "train_step model rnd step b s")
  obtain e1 where e1: "trace s1 = trace s @ e1"
    using train_step_prefix [of model rnd step b s] st by auto
  show ?case
  proof (cases r)
    case None
    obtain e2 where "trace (snd (train_loop model rnd (Suc step) bs s1)) = trace s1 @ e2"
      using Cons.IH [of "Suc step" s1] by auto
    with None st e1 show ?thesis by simp
  next
    case (Some e)
    with st e1 show ?thesis by simp
  qed
qed

lemma trace_added_loop:
  "trace (snd (train_loop model rnd step bs s)) = trace s @ added s (snd (train_loop model rnd step bs s))"
  using train_loop_prefix [of model rnd step bs s] by (auto simp add: added_def)

lemma trace_added_step:
  "trace (snd (train_step model rnd step b s)) = trace s @ added s (snd (train_step model rnd step b s))"
  using train_step_prefix [of model rnd step b s] by (auto simp add: added_def)

lemma added_trans:
  assumes "trace s1 = trace s @ e1" and "trace s2 = trace s1 @ e2"
  shows "added s s2 = e1 @ e2"
  using assms by (simp add: added_def)

lemma capacity_step [simp]:
  "capacity (mem (snd (train_step model rnd step b s))) = capacity (mem s)"
  by (simp add: train_step_def Let_def sample_def split: prod.splits sum.splits)

lemma memory_step [simp]:
  "memory (mem (snd (train_step model rnd step b s))) = memory (push rnd (mem s) b)"
  by (simp add: train_step_def Let_def sample_def split: prod.splits sum.splits)

lemma step_ok:
  assumes "0 < capacity (mem s)" and "b \<noteq> []"
  shows "fst (train_step model rnd step b s) = None"
proof -
  have ne: "memory (push rnd (mem s) b) \<noteq> []" using assms by (rule push_nonempty)
  show ?thesis
    by (cases "(step + 1) mod REPLAY_FREQ = 0") (simp_all add: train_step_live train_step_replay ne)
qed

lemma loop_Cons_ok:
  assumes "0 < capacity (mem s)" and "b \<noteq> []"
  shows "train_loop model rnd step (b # bs) s =
         train_loop model rnd (Suc step) bs (snd (train_step model rnd step b s))"
  using step_ok [OF assms, of model rnd step]
  by (cases "train_step model rnd step b s") simp

lemma added_loop_Cons:
  assumes "0 < capacity (mem s)" and "b \<noteq> []"
  shows "added s (snd (train_loop model rnd step (b # bs) s)) =
         added s (snd (train_step model rnd step b s)) @
         added (snd (train_step model rnd step b s))
           (snd (train_loop model rnd (Suc step) bs (snd (train_step model rnd step b s))))"
  unfolding loop_Cons_ok [OF assms]
  by (rule added_trans [OF trace_added_step trace_added_loop])

lemma added_step_ok:
  assumes "0 < capacity (mem s)" and "b \<noteq> []"
  shows "added s (snd (train_step model rnd step b s)) =
     (if (step + 1) mod REPLAY_FREQ = 0
      then [EvPush b, EvSample 64 (memory (push rnd (mem s) b)),
            EvZeroGrad, EvClassify Replay (drawn rnd (push rnd (mem s) b) 64),
            EvBackward, EvOptStep]
      else [EvPush b, EvZeroGrad, EvClassify Live b, EvBackward, EvOptStep])"
proof -
  have ne: "memory (push rnd (mem s) b) \<noteq> []" using assms by (rule push_nonempty)
  show ?thesis
    by (simp add: train_step_live train_step_replay ne added_def)
qed

lemma loop_ok:
  assumes "0 < capacity (mem s)" and "\<forall>b\<in>set bs. b \<noteq> []"
  shows "fst (train_loop model rnd step bs s) = None"
  using assms
proof (induction bs arbitrary: step s)
  case Nil
  show ?case by simp
next
  case (Cons b bs)
  have b: "b \<noteq> []" using Cons.prems(2) by simp
  show ?case
    unfolding loop_Cons_ok [OF Cons.prems(1) b]
    by (rule Cons.IH) (use Cons.prems in simp_all)
qed

lemma loop_capacity [simp]:
  "capacity (mem (snd (train_loop model rnd step bs s))) = capacity (mem s)"
proof (induction bs arbitrary: step s)
  case Nil
  show ?case by simp
next
  case (Cons b bs)
  obtain r s1 where st: "train_step model rnd step b s = (r, s1)"
    by (cases "train_step model rnd step b s")
  have c1: "capacity (mem s1) = capacity (mem s)"
    using capacity_step [of model rnd step b s] st by simp
  show ?case
    using st c1 Cons.IH [of "Suc step" s1] by (cases r) simp_all
qed

lemma loop_pushes:
  assumes "0 < capacity (mem s)" and "\<forall>b\<in>set bs. b \<noteq> []"
  shows "pushes (added s (snd (train_loop model rnd step bs s))) = bs"
  using assms
proof (induction bs arbitrary: step s)
  case Nil
  show ?case by (simp add: added_def pushes_def)
next
  case (Cons b bs)
  have b: "b \<noteq> []" using Cons.prems(2) by simp
  let ?s1 = "snd (train_step model rnd step b s)"
  have ih: "pushes (added ?s1 (snd (train_loop model rnd (Suc step) bs ?s1))) = bs"
    by (rule Cons.IH) (use Cons.prems in simp_all)
  show ?case
    unfolding added_loop_Cons [OF Cons.prems(1) b] pushes_append ih
    by (simp add: added_step_ok [OF Cons.prems(1) b] pushes_def)
qed

section \<open>Properties of an epoch\<close>

lemma loop_sources:
  assumes "0 < capacity (mem s)" and "\<forall>b\<in>set bs. b \<noteq> []"
  shows "sources (added s (snd (train_loop model rnd step bs s))) =
         map (\<lambda>i. if (i + 1) mod REPLAY_FREQ = 0 then Replay else Live) [step..<step + length bs]"
  using assms
proof (induction bs arbitrary: step s)
  case Nil
  show ?case by (simp add: added_def sources_def classified_def)
next
  case (Cons b bs)
  have b: "b \<noteq> []" using Cons.prems(2) by simp
  let ?s1 = "snd (train_step model rnd step b s)"
  have ih: "sources (added ?s1 (snd (train_loop model rnd (Suc step) bs ?s1))) =
        map (\<lambda>i. if (i + 1) mod REPLAY_FREQ = 0 then Replay else Live) [Suc step..<Suc step + length bs]"
    by (rule Cons.IH) (use Cons.prems in simp_all)
  have eq: "step + length (b # bs) = Suc step + length bs" by simp
  have up: "[step..<step + length (b # bs)] = step # [Suc step..<Suc step + length bs]"
    unfolding eq by (rule upt_conv_Cons) simp
  show ?case
    unfolding added_loop_Cons [OF Cons.prems(1) b] sources_append ih up
    by (simp add: added_step_ok [OF Cons.prems(1) b] sources_def classified_def)
qed

lemma count_multiples:
  "0 < P \<Longrightarrow> length (filter (\<lambda>i. (i + 1) mod P = 0) [0..<M]) = M div P"
  by (induction M) (simp_all add: div_Suc)

lemma trace_save_checkpoint:
  "\<exists>ext. trace (save_checkpoint d ord e marg barg s) = trace s @ ext \<and>
         classified ext = [] \<and> pushes ext = [] \<and> samples ext = [] \<and>
         filter is_gradient_event ext = []"
  by (cases marg)
     (simp_all add: save_checkpoint_def Let_def os_mkdir_def torch_save_def np_save_def
        classified_def pushes_def samples_def is_gradient_event_def)


lemma nb_steps_step:
  assumes "0 < capacity (mem s)" and "b \<noteq> []"
  shows "nb_tr_steps (snd (train_step model rnd step b s)) = nb_tr_steps s + 1"
proof -
  have ne: "memory (push rnd (mem s) b) \<noteq> []" using assms by (rule push_nonempty)
  show ?thesis
    by (cases "(step + 1) mod REPLAY_FREQ = 0") (simp_all add: train_step_live train_step_replay ne)
qed

lemma loop_nb_steps:
  assumes "0 < capacity (mem s)" and "\<forall>b\<in>set bs. b \<noteq> []"
  shows "nb_tr_steps (snd (train_loop model rnd step bs s)) = nb_tr_steps s + length bs"
  using assms
proof (induction bs arbitrary: step s)
  case Nil
  show ?case by simp
next
  case (Cons b bs)
  have b: "b \<noteq> []" using Cons.prems(2) by simp
  let ?s1 = "snd (train_step model rnd step b s)"
  have "nb_tr_steps (snd (train_loop model rnd (Suc step) bs ?s1)) = nb_tr_steps ?s1 + length bs"
    by (rule Cons.IH) (use Cons.prems in simp_all)
  then show ?case
    unfolding loop_Cons_ok [OF Cons.prems(1) b]
    by (simp add: nb_steps_step [OF Cons.prems(1) b])
qed

lemma train_epoch_ok:
  assumes "0 < capacity (mem s)" and "\<forall>b\<in>set bs. b \<noteq> []"
  shows "train_epoch model rnd order bs epoch s =
     (let s1 = snd (train_loop model rnd 0 bs (s\<lparr>nb_tr_examples := 0, nb_tr_steps := 0\<rparr>))
      in if bs = [] then (Some ZeroDivisionError, s1)
         else (None,
               save_checkpoint (params s1) order (int epoch + 1) (Some (memory (mem s1))) None
                 (s1\<lparr>trace := trace s1 @ [EvSaveState]\<rparr>)))"
proof -
  let ?s0 = "s\<lparr>nb_tr_examples := 0, nb_tr_steps := 0\<rparr>"
  have c0: "0 < capacity (mem ?s0)" using assms(1) by simp
  obtain r s1 where lp: "train_loop model rnd 0 bs ?s0 = (r, s1)"
    by (cases "train_loop model rnd 0 bs ?s0")
  have r: "r = None" using loop_ok [OF c0 assms(2), of model rnd 0] lp by simp
  have n: "nb_tr_steps s1 = length bs"
    using loop_nb_steps [OF c0 assms(2), of model rnd 0] lp by simp
  show ?thesis
    by (simp add: train_epoch_def lp r n Let_def)
qed

lemma epoch_added:
  assumes "0 < capacity (mem s)" and "\<forall>b\<in>set bs. b \<noteq> []"
  shows "\<exists>ext. added s (snd (train_epoch model rnd order bs epoch s)) =
           added (s\<lparr>nb_tr_examples := 0, nb_tr_steps := 0\<rparr>)
             (snd (train_loop model rnd 0 bs (s\<lparr>nb_tr_examples := 0, nb_tr_steps := 0\<rparr>))) @ ext \<and>
         classified ext = [] \<and> pushes ext = [] \<and> samples ext = [] \<and>
         filter is_gradient_event ext = []"
proof -
  let ?s0 = "s\<lparr>nb_tr_examples := 0, nb_tr_steps := 0\<rparr>"
  let ?s1 = "snd (train_loop model rnd 0 bs ?s0)"
  have t1: "trace ?s1 = trace s @ added ?s0 ?s1"
    using trace_added_loop [of model rnd 0 bs ?s0] by simp
  show ?thesis
  proof (cases "bs = []")
    case True
    have "added s (snd (train_epoch model rnd order bs epoch s)) = added ?s0 ?s1 @ []"
      unfolding train_epoch_ok [OF assms] Let_def using True by (simp add: added_def)
    then show ?thesis
      by (intro exI [of _ "[]"]) (simp add: classified_def pushes_def samples_def)
  next
    case False
    let ?s2 = "?s1\<lparr>trace := trace ?s1 @ [EvSaveState]\<rparr>"
    obtain ext where ext: "trace (save_checkpoint (params ?s1) order (int epoch + 1)
           (Some (memory (mem ?s1))) None ?s2) = trace ?s2 @ ext"
        and props: "classified ext = []" "pushes ext = []" "samples ext = []"
          "filter is_gradient_event ext = []"
      using trace_save_checkpoint [of "params ?s1" order "int epoch + 1"
              "Some (memory (mem ?s1))" None ?s2] by blast
    have tr: "trace (snd (train_epoch model rnd order bs epoch s)) =
            trace ?s1 @ EvSaveState # ext"
      using False ext by (simp add: train_epoch_ok [OF assms] Let_def)
    have "trace (snd (train_epoch model rnd order bs epoch s)) =
            trace s @ (added ?s0 ?s1 @ (EvSaveState # ext))"
      by (subst tr, subst t1) simp
    then have "added s (snd (train_epoch model rnd order bs epoch s)) =
            added ?s0 ?s1 @ (EvSaveState # ext)"
      by (rule added_trace)
    moreover have "classified (EvSaveState # ext) = []" "pushes (EvSaveState # ext) = []"
       "samples (EvSaveState # ext) = []" "filter is_gradient_event (EvSaveState # ext) = []"
      using props by (simp_all add: classified_def pushes_def samples_def is_gradient_event_def)
    ultimately show ?thesis by blast
  qed
qed

lemma epoch_sources:
  assumes "0 < capacity (mem s)" and "\<forall>b\<in>set bs. b \<noteq> []"
  shows "sources (added s (snd (train_epoch model rnd order bs epoch s))) =
         map (\<lambda>i. if (i + 1) mod REPLAY_FREQ = 0 then Replay else Live) [0..<length bs]"
proof -
  let ?s0 = "s\<lparr>nb_tr_examples := 0, nb_tr_steps := 0\<rparr>"
  have c0: "0 < capacity (mem ?s0)" using assms(1) by simp
  obtain ext where "added s (snd (train_epoch model rnd order bs epoch s)) =
           added ?s0 (snd (train_loop model rnd 0 bs ?s0)) @ ext" and "classified ext = []"
    using epoch_added [OF assms, of model rnd order epoch] by blast
  then show ?thesis
    using loop_sources [OF c0 assms(2), of model rnd 0] by (simp add: sources_def)
qed

lemma count_sources:
  "length (filter (\<lambda>x. x = Live) xs) + length (filter (\<lambda>x. x = Replay) xs) = length xs"
proof (induction xs)
  case Nil
  show ?case by simp
next
  case (Cons x xs)
  then show ?case by (cases x) simp_all
qed

lemma upt_split_360: "[1..<361] = [1..<180] @ [180] @ [181..<360] @ [360::nat]"
proof -
  have a: "[1..<361] = [1..<180] @ [180..<361::nat]"
    using upt_add_eq_append [of 1 180 181] by simp
  have b: "[180..<361] = 180 # [181..<361::nat]"
    by (subst upt_rec) simp
  have c: "[181..<361] = [181..<360] @ [360..<361::nat]"
    using upt_add_eq_append [of 181 360 1] by simp
  have d: "[360..<361] = [360::nat]"
    by (subst upt_rec) simp
  show ?thesis by (simp only: a b c d append_Cons append_Nil)
qed

lemma multiples_upto_360: "filter (\<lambda>i. i mod 180 = 0) [1..<361] = [180, 360::nat]"
proof -
  have e1: "filter (\<lambda>i. i mod 180 = 0) [1..<180::nat] = []"
    by (auto simp add: filter_empty_conv)
  have e2: "filter (\<lambda>i. i mod 180 = 0) [181..<360::nat] = []"
  proof -
    have "\<And>x::nat. 181 \<le> x \<Longrightarrow> x < 360 \<Longrightarrow> x mod 180 \<noteq> 0" by presburger
    then show ?thesis by (auto simp add: filter_empty_conv)
  qed
  show ?thesis unfolding upt_split_360 filter_append e1 e2 by simp
qed

lemma nb_examples_step:
  assumes "0 < capacity (mem s)" and "b \<noteq> []"
  shows "nb_tr_examples (snd (train_step model rnd step b s)) =
         nb_tr_examples s + (if (step + 1) mod REPLAY_FREQ = 0 then 64 else length b)"
proof -
  have ne: "memory (push rnd (mem s) b) \<noteq> []" using assms by (rule push_nonempty)
  show ?thesis
    by (cases "(step + 1) mod REPLAY_FREQ = 0") (simp_all add: train_step_live train_step_replay ne)
qed

lemma length_memories [simp]: "length (memories rnd step m bs) = length bs"
  by (induction bs arbitrary: step m) (simp_all add: Let_def)

lemma mem_step:
  "mem (snd (train_step model rnd step b s)) =
     (if (step + 1) mod REPLAY_FREQ = 0 then snd (sample rnd (push rnd (mem s) b) 64)
      else push rnd (mem s) b)"
  by (simp add: train_step_def Let_def split: prod.splits sum.splits)

lemma memories_Cons:
  "memories rnd step (mem s) (b # bs) =
     push rnd (mem s) b #
     memories rnd (Suc step) (mem (snd (train_step model rnd step b s))) bs"
  by (simp add: Let_def mem_step)

lemma sample_length: "fst (sample rnd m k) = Inr tb \<Longrightarrow> length tb = k"
  by (auto simp add: sample_def drawn_def split: if_splits)

lemma classified_step:
  assumes "0 < capacity (mem s)" and "b \<noteq> []"
  shows "\<exists>c. classified (added s (snd (train_step model rnd step b s))) = [c] \<and>
             trains_as rnd c (step, b, push rnd (mem s) b) \<and>
             length (snd c) = (if (step + 1) mod REPLAY_FREQ = 0 then 64 else length b)"
proof -
  have ne: "memory (push rnd (mem s) b) \<noteq> []" using assms by (rule push_nonempty)
  show ?thesis
    by (simp add: added_step_ok [OF assms] classified_def trains_as_def sample_def ne drawn_def)
qed

lemma loop_classified:
  assumes "0 < capacity (mem s)" and "\<forall>b\<in>set bs. b \<noteq> []"
  shows "list_all2 (trains_as rnd) (classified (added s (snd (train_loop model rnd step bs s))))
           (zip [step..<step + length bs] (zip bs (memories rnd step (mem s) bs)))"
  using assms
proof (induction bs arbitrary: step s)
  case Nil
  show ?case by (simp add: added_def classified_def)
next
  case (Cons b bs)
  have b: "b \<noteq> []" using Cons.prems(2) by simp
  let ?s1 = "snd (train_step model rnd step b s)"
  have ih: "list_all2 (trains_as rnd)
           (classified (added ?s1 (snd (train_loop model rnd (Suc step) bs ?s1))))
           (zip [Suc step..<Suc step + length bs] (zip bs (memories rnd (Suc step) (mem ?s1) bs)))"
    by (rule Cons.IH) (use Cons.prems in simp_all)
  obtain c where c: "classified (added s ?s1) = [c]"
      "trains_as rnd c (step, b, push rnd (mem s) b)"
    using classified_step [OF Cons.prems(1) b, of model rnd step] by blast
  have eq: "step + length (b # bs) = Suc step + length bs" by simp
  have up: "[step..<step + length (b # bs)] = step # [Suc step..<Suc step + length bs]"
    unfolding eq by (rule upt_conv_Cons) simp
  show ?case
    unfolding added_loop_Cons [OF Cons.prems(1) b] classified_append up c
      memories_Cons [where model = model]
    using ih c(2) by simp
qed

lemma loop_nb_examples:
  assumes "0 < capacity (mem s)" and "\<forall>b\<in>set bs. b \<noteq> []"
  shows "nb_tr_examples (snd (train_loop model rnd step bs s)) =
         nb_tr_examples s +
         sum_list (map (\<lambda>c. length (snd c)) (classified (added s (snd (train_loop model rnd step bs s)))))"
  using assms
proof (induction bs arbitrary: step s)
  case Nil
  show ?case by (simp add: added_def classified_def)
next
  case (Cons b bs)
  have b: "b \<noteq> []" using Cons.prems(2) by simp
  let ?s1 = "snd (train_step model rnd step b s)"
  let ?s2 = "snd (train_loop model rnd (Suc step) bs ?s1)"
  have ih: "nb_tr_examples ?s2 =
         nb_tr_examples ?s1 + sum_list (map (\<lambda>c. length (snd c)) (classified (added ?s1 ?s2)))"
    by (rule Cons.IH) (use Cons.prems in simp_all)
  obtain c where c: "classified (added s ?s1) = [c]"
      and len: "length (snd c) = (if (step + 1) mod REPLAY_FREQ = 0 then 64 else length b)"
    using classified_step [OF Cons.prems(1) b, of model rnd step] by blast
  have lhs: "nb_tr_examples (snd (train_loop model rnd step (b # bs) s)) = nb_tr_examples ?s2"
    by (simp only: loop_Cons_ok [OF Cons.prems(1) b])
  show ?case
    unfolding lhs ih added_loop_Cons [OF Cons.prems(1) b] classified_append c
    by (simp add: nb_examples_step [OF Cons.prems(1) b] len)
qed

lemma sum_period:
  "0 < P \<Longrightarrow>
   sum_list (map (\<lambda>i. if (i + 1) mod P = 0 then a else (b::nat)) [0..<M]) =
     a * (M div P) + b * (M - M div P)"
proof (induction M)
  case 0
  show ?case by simp
next
  case (Suc M)
  have le: "M div P \<le> M" by (rule div_le_dividend)
  show ?case
    using Suc le by (simp add: div_Suc Suc_diff_le)
qed

lemma save_checkpoint_counters [simp]:
  "nb_tr_examples (save_checkpoint d ord e marg barg s) = nb_tr_examples s"
  "nb_tr_steps (save_checkpoint d ord e marg barg s) = nb_tr_steps s"
  "params (save_checkpoint d ord e marg barg s) = params s"
  "mem (save_checkpoint d ord e marg barg s) = mem s"
  "train_loss_set (save_checkpoint d ord e marg barg s) = train_loss_set s"
  by (cases marg; simp add: save_checkpoint_def Let_def os_mkdir_def torch_save_def np_save_def)+

lemma epoch_classified_eq:
  assumes "0 < capacity (mem s)" and "\<forall>b\<in>set bs. b \<noteq> []"
  shows "classified (added s (snd (train_epoch model rnd order bs epoch s))) =
         classified (added (s\<lparr>nb_tr_examples := 0, nb_tr_steps := 0\<rparr>)
           (snd (train_loop model rnd 0 bs (s\<lparr>nb_tr_examples := 0, nb_tr_steps := 0\<rparr>))))"
proof -
  obtain ext where "added s (snd (train_epoch model rnd order bs epoch s)) =
           added (s\<lparr>nb_tr_examples := 0, nb_tr_steps := 0\<rparr>)
             (snd (train_loop model rnd 0 bs (s\<lparr>nb_tr_examples := 0, nb_tr_steps := 0\<rparr>))) @ ext"
     and "classified ext = []"
    using epoch_added [OF assms, of model rnd order epoch] by blast
  then show ?thesis by simp
qed

lemma epoch_classified:
  assumes "0 < capacity (mem s)" and "\<forall>b\<in>set bs. b \<noteq> []"
  shows "list_all2 (trains_as rnd)
           (classified (added s (snd (train_epoch model rnd order bs epoch s))))
           (zip [0..<length bs] (zip bs (memories rnd 0 (mem s) bs)))"
proof -
  let ?s0 = "s\<lparr>nb_tr_examples := 0, nb_tr_steps := 0\<rparr>"
  have c0: "0 < capacity (mem ?s0)" using assms(1) by simp
  show ?thesis
    unfolding epoch_classified_eq [OF assms]
    using loop_classified [OF c0 assms(2), where model = model and step = 0] by simp
qed

lemma epoch_nb_examples:
  assumes "0 < capacity (mem s)" and "\<forall>b\<in>set bs. b \<noteq> []"
  shows "nb_tr_examples (snd (train_epoch model rnd order bs epoch s)) =
         sum_list (map (\<lambda>c. length (snd c))
           (classified (added s (snd (train_epoch model rnd order bs epoch s)))))"
proof -
  let ?s0 = "s\<lparr>nb_tr_examples := 0, nb_tr_steps := 0\<rparr>"
  have c0: "0 < capacity (mem ?s0)" using assms(1) by simp
  have "nb_tr_examples (snd (train_epoch model rnd order bs epoch s)) =
        nb_tr_examples (snd (train_loop model rnd 0 bs ?s0))"
    by (simp add: train_epoch_ok [OF assms] Let_def)
  also have "\<dots> = sum_list (map (\<lambda>c. length (snd c))
           (classified (added ?s0 (snd (train_loop model rnd 0 bs ?s0)))))"
    using loop_nb_examples [OF c0 assms(2), of model rnd 0] by simp
  finally show ?thesis unfolding epoch_classified_eq [OF assms] .
qed

lemma uniform_lengths:
  "length ms = length bs \<Longrightarrow>
   list_all2 (trains_as rnd) cs (zip [k..<k + length bs] (zip bs ms)) \<Longrightarrow>
   \<forall>b\<in>set bs. length b = B \<Longrightarrow>
   map (\<lambda>c. length (snd c)) cs =
   map (\<lambda>i. if (i + 1) mod REPLAY_FREQ = 0 then 64 else B) [k..<k + length bs]"
proof (induction bs arbitrary: cs k ms)
  case Nil
  then show ?case by simp
next
  case (Cons b bs)
  obtain m ms' where ms: "ms = m # ms'" and lms: "length ms' = length bs"
    using Cons.prems(1) by (cases ms) auto
  have eq: "k + length (b # bs) = Suc k + length bs" by simp
  have up: "[k..<k + length (b # bs)] = k # [Suc k..<Suc k + length bs]"
    unfolding eq by (rule upt_conv_Cons) simp
  from Cons.prems(2) obtain c cs' where cs: "cs = c # cs'" and c: "trains_as rnd c (k, b, m)"
      and rest: "list_all2 (trains_as rnd) cs' (zip [Suc k..<Suc k + length bs] (zip bs ms'))"
    unfolding up ms by (auto simp add: list_all2_Cons2)
  have ih: "map (\<lambda>c. length (snd c)) cs' =
      map (\<lambda>i. if (i + 1) mod REPLAY_FREQ = 0 then 64 else B) [Suc k..<Suc k + length bs]"
    by (rule Cons.IH [OF lms rest]) (use Cons.prems(3) in simp)
  have "length (snd c) = (if (k + 1) mod REPLAY_FREQ = 0 then 64 else B)"
    using c Cons.prems(3) by (auto simp add: trains_as_def dest: sample_length)
  then show ?case unfolding up cs using ih by simp
qed

lemma epoch_nb_examples_uniform:
  assumes "0 < capacity (mem s)" and "\<forall>b\<in>set bs. b \<noteq> []" and "\<forall>b\<in>set bs. length b = B"
  shows "nb_tr_examples (snd (train_epoch model rnd order bs epoch s)) =
         (length bs - length bs div 180) * B + 64 * (length bs div 180)"
proof -
  have "map (\<lambda>c. length (snd c))
           (classified (added s (snd (train_epoch model rnd order bs epoch s)))) =
        map (\<lambda>i. if (i + 1) mod REPLAY_FREQ = 0 then 64 else B) [0..<0 + length bs]"
    by (rule uniform_lengths [OF _ _ assms(3), of "memories rnd 0 (mem s) bs" rnd])
       (use epoch_classified [OF assms(1,2), where model = model and order = order and epoch = epoch] in simp_all)
  then show ?thesis
    unfolding epoch_nb_examples [OF assms(1,2)]
    using sum_period [of REPLAY_FREQ 64 B "length bs"]
    by (simp add: REPLAY_FREQ_def mult.commute)
qed

lemma epoch_live_count:
  assumes "0 < capacity (mem s)" and "\<forall>b\<in>set bs. b \<noteq> []"
  shows "length (filter (\<lambda>x. x = Live)
           (sources (added s (snd (train_epoch model rnd order bs epoch s))))) =
         length bs - length bs div 180"
proof -
  let ?srcs = "sources (added s (snd (train_epoch model rnd order bs epoch s)))"
  have srcs: "?srcs = map (\<lambda>i. if (i + 1) mod 180 = 0 then Replay else Live) [0..<length bs]"
    using epoch_sources [OF assms, of model rnd order epoch] by (simp add: REPLAY_FREQ_def)
  have rep: "length (filter (\<lambda>x. x = Replay) ?srcs) = length bs div 180"
    using count_multiples [of 180 "length bs"] by (simp add: srcs filter_map comp_def)
  have "length (filter (\<lambda>x. x = Live) ?srcs) + length (filter (\<lambda>x. x = Replay) ?srcs) = length bs"
    using count_sources [of ?srcs] by (simp add: srcs)
  with rep show ?thesis by simp
qed

text \<open>
  C3 (amended).  The example count of an epoch is the total size of the batches handed
  to \<open>model.classify\<close>, the sampled ones included: line 114 adds \<open>content.size(0)\<close> on
  every step.  Live steps contribute the size of their batch and every replay step
  contributes the 64 sampled examples; with batches of one size \<open>B\<close> the count is
  \<open>(M - M div 180) * B + 64 * (M div 180)\<close>.
\<close>

theorem example_count:
  assumes "0 < capacity (mem s)" and "\<forall>b\<in>set train_dataloader. b \<noteq> []"
  shows "(let s' = snd (train_epoch model rnd order train_dataloader epoch s);
              M = length train_dataloader
          in nb_tr_examples s' = sum_list (map (\<lambda>c. length (snd c)) (classified (added s s'))) \<and>
             list_all2 (trains_as rnd) (classified (added s s'))
               (zip [0..<M] (zip train_dataloader (memories rnd 0 (mem s) train_dataloader))) \<and>
             (\<forall>B. (\<forall>b\<in>set train_dataloader. length b = B) \<longrightarrow>
                  nb_tr_examples s' = (M - M div 180) * B + 64 * (M div 180)))"
proof -
  have a: "nb_tr_examples (snd (train_epoch model rnd order train_dataloader epoch s)) =
      sum_list (map (\<lambda>c. length (snd c))
        (classified (added s (snd (train_epoch model rnd order train_dataloader epoch s)))))"
    by (rule epoch_nb_examples [OF assms])
  have b: "list_all2 (trains_as rnd)
      (classified (added s (snd (train_epoch model rnd order train_dataloader epoch s))))
      (zip [0..<length train_dataloader]
         (zip train_dataloader (memories rnd 0 (mem s) train_dataloader)))"
    by (rule epoch_classified [OF assms])
  have c: "\<forall>B. (\<forall>b\<in>set train_dataloader. length b = B) \<longrightarrow>
      nb_tr_examples (snd (train_epoch model rnd order train_dataloader epoch s)) =
      (length train_dataloader - length train_dataloader div 180) * B +
      64 * (length train_dataloader div 180)"
    using epoch_nb_examples_uniform [OF assms] by blast
  show ?thesis unfolding Let_def by (intro conjI a b c)
qed

theorem example_count_witness:
  "0 < capacity (mem (fresh 100)) \<and> [] \<notin> set (singles 360) \<and>
   nb_tr_examples (snd (train_epoch model0 (\<lambda>n. n) 1 (singles 360) 0 (fresh 100))) = 486"
proof -
  have h1: "0 < capacity (mem (fresh 100))" by (simp add: fresh_def ReplayMemory_def)
  have h2: "\<forall>b\<in>set (singles 360). b \<noteq> []" by (simp add: singles_def)
  have h3: "\<forall>b\<in>set (singles 360). length b = 1" by (simp add: singles_def)
  have len: "length (singles 360) = 360" by (simp add: singles_def)
  note t = example_count [OF h1 h2, of model0 "\<lambda>n. n" 1 0, unfolded Let_def]
  note u = t [THEN conjunct2, THEN conjunct2, THEN spec, THEN mp, OF h3]
  have "nb_tr_examples (snd (train_epoch model0 (\<lambda>n. n) 1 (singles 360) 0 (fresh 100))) = 486"
    unfolding u len by simp
  moreover have "[] \<notin> set (singles 360)" using h2 by blast
  ultimately show ?thesis using h1 by blast
qed

theorem example_count_counterexample:
  "nb_tr_examples
     (snd (train_epoch model0 (\<lambda>n. n) 1 (replicate 180 (replicate 32 (ex 0))) 0 (fresh 100))) = 5792 \<and>
   length (filter (\<lambda>x. x = Live)
     (sources (added (fresh 100)
       (snd (train_epoch model0 (\<lambda>n. n) 1 (replicate 180 (replicate 32 (ex 0))) 0 (fresh 100))))))
     * 32 = 5728"
proof -
  have h1: "0 < capacity (mem (fresh 100))" by (simp add: fresh_def ReplayMemory_def)
  have h2: "\<forall>b\<in>set (replicate 180 (replicate 32 (ex 0))). b \<noteq> []" by simp
  have h3: "\<forall>b\<in>set (replicate 180 (replicate 32 (ex 0))). length b = 32" by simp
  have a: "nb_tr_examples
     (snd (train_epoch model0 (\<lambda>n. n) 1 (replicate 180 (replicate 32 (ex 0))) 0 (fresh 100))) = 5792"
    unfolding epoch_nb_examples_uniform [OF h1 h2 h3] by simp
  have b: "length (filter (\<lambda>x. x = Live)
     (sources (added (fresh 100)
       (snd (train_epoch model0 (\<lambda>n. n) 1 (replicate 180 (replicate 32 (ex 0))) 0 (fresh 100))))))
     * 32 = 5728"
    unfolding epoch_live_count [OF h1 h2] by simp
  show ?thesis by (intro conjI a b)
qed

lemma step_gradient:
  assumes "0 < capacity (mem s)" and "b \<noteq> []"
  shows "filter is_gradient_event (added s (snd (train_step model rnd step b s))) =
         concat (map gradient_step (classified (added s (snd (train_step model rnd step b s)))))"
  by (simp add: added_step_ok [OF assms] is_gradient_event_def classified_def gradient_step_def)

lemma loop_gradient:
  assumes "0 < capacity (mem s)" and "\<forall>b\<in>set bs. b \<noteq> []"
  shows "filter is_gradient_event (added s (snd (train_loop model rnd step bs s))) =
         concat (map gradient_step (classified (added s (snd (train_loop model rnd step bs s)))))"
  using assms
proof (induction bs arbitrary: step s)
  case Nil
  show ?case by (simp add: added_def classified_def)
next
  case (Cons b bs)
  have b: "b \<noteq> []" using Cons.prems(2) by simp
  let ?s1 = "snd (train_step model rnd step b s)"
  have ih: "filter is_gradient_event (added ?s1 (snd (train_loop model rnd (Suc step) bs ?s1))) =
      concat (map gradient_step (classified (added ?s1 (snd (train_loop model rnd (Suc step) bs ?s1)))))"
    by (rule Cons.IH) (use Cons.prems in simp_all)
  show ?case
    unfolding added_loop_Cons [OF Cons.prems(1) b] filter_append classified_append map_append
      concat_append ih step_gradient [OF Cons.prems(1) b] ..
qed

lemma step_params:
  assumes "0 < capacity (mem s)" and "b \<noteq> []"
  shows "params (snd (train_step model rnd step b s)) =
         foldl (apply_step model) (params s)
           (map snd (classified (added s (snd (train_step model rnd step b s)))))"
proof -
  have ne: "memory (push rnd (mem s) b) \<noteq> []" using assms by (rule push_nonempty)
  show ?thesis
    unfolding added_step_ok [OF assms]
    by (cases "(step + 1) mod REPLAY_FREQ = 0")
       (simp_all add: train_step_live train_step_replay ne classified_def)
qed

lemma loop_params:
  assumes "0 < capacity (mem s)" and "\<forall>b\<in>set bs. b \<noteq> []"
  shows "params (snd (train_loop model rnd step bs s)) =
         foldl (apply_step model) (params s)
           (map snd (classified (added s (snd (train_loop model rnd step bs s)))))"
  using assms
proof (induction bs arbitrary: step s)
  case Nil
  show ?case by (simp add: added_def classified_def)
next
  case (Cons b bs)
  have b: "b \<noteq> []" using Cons.prems(2) by simp
  let ?s1 = "snd (train_step model rnd step b s)"
  have ih: "params (snd (train_loop model rnd (Suc step) bs ?s1)) =
      foldl (apply_step model) (params ?s1)
        (map snd (classified (added ?s1 (snd (train_loop model rnd (Suc step) bs ?s1)))))"
    by (rule Cons.IH) (use Cons.prems in simp_all)
  have "params (snd (train_loop model rnd step (b # bs) s)) =
        params (snd (train_loop model rnd (Suc step) bs ?s1))"
    unfolding loop_Cons_ok [OF Cons.prems(1) b] ..
  also note ih
  also note step_params [OF Cons.prems(1) b, of model rnd step]
  finally show ?case
    unfolding added_loop_Cons [OF Cons.prems(1) b] classified_append map_append foldl_append .
qed

lemma opt_steps_gradient:
  "filter (\<lambda>e. e = EvOptStep) xs = filter (\<lambda>e. e = EvOptStep) (filter is_gradient_event xs)"
  by (induction xs) (auto simp add: is_gradient_event_def)

lemma opt_steps_count:
  "length (filter (\<lambda>e. e = EvOptStep) (concat (map gradient_step cs))) = length cs"
  by (induction cs) (simp_all add: gradient_step_def)

lemma epoch_gradient:
  assumes "0 < capacity (mem s)" and "\<forall>b\<in>set bs. b \<noteq> []"
  shows "filter is_gradient_event (added s (snd (train_epoch model rnd order bs epoch s))) =
         concat (map gradient_step
           (classified (added s (snd (train_epoch model rnd order bs epoch s)))))"
proof -
  let ?s0 = "s\<lparr>nb_tr_examples := 0, nb_tr_steps := 0\<rparr>"
  have c0: "0 < capacity (mem ?s0)" using assms(1) by simp
  obtain ext where a: "added s (snd (train_epoch model rnd order bs epoch s)) =
           added ?s0 (snd (train_loop model rnd 0 bs ?s0)) @ ext"
     and c: "classified ext = []" and g: "filter is_gradient_event ext = []"
    using epoch_added [OF assms, of model rnd order epoch] by blast
  show ?thesis
    unfolding a filter_append classified_append g c loop_gradient [OF c0 assms(2)] by simp
qed

lemma epoch_params:
  assumes "0 < capacity (mem s)" and "\<forall>b\<in>set bs. b \<noteq> []"
  shows "params (snd (train_epoch model rnd order bs epoch s)) =
         foldl (apply_step model) (params s)
           (map snd (classified (added s (snd (train_epoch model rnd order bs epoch s)))))"
proof -
  let ?s0 = "s\<lparr>nb_tr_examples := 0, nb_tr_steps := 0\<rparr>"
  have c0: "0 < capacity (mem ?s0)" using assms(1) by simp
  have "params (snd (train_epoch model rnd order bs epoch s)) =
        params (snd (train_loop model rnd 0 bs ?s0))"
    by (simp add: train_epoch_ok [OF assms] Let_def)
  also have "\<dots> = foldl (apply_step model) (params s)
           (map snd (classified (added ?s0 (snd (train_loop model rnd 0 bs ?s0)))))"
    using loop_params [OF c0 assms(2), of model rnd 0] by simp
  finally show ?thesis unfolding epoch_classified_eq [OF assms] .
qed

lemma epoch_opt_steps:
  assumes "0 < capacity (mem s)" and "\<forall>b\<in>set bs. b \<noteq> []"
  shows "length (filter (\<lambda>e. e = EvOptStep)
           (added s (snd (train_epoch model rnd order bs epoch s)))) = length bs"
proof -
  have "length (classified (added s (snd (train_epoch model rnd order bs epoch s)))) =
        length (zip [0..<length bs] (zip bs (memories rnd 0 (mem s) bs)))"
    using epoch_classified [OF assms, where model = model and order = order and epoch = epoch] by (rule list_all2_lengthD)
  then have len: "length (classified (added s (snd (train_epoch model rnd order bs epoch s)))) =
        length bs" by simp
  show ?thesis
    by (subst opt_steps_gradient)
       (simp only: epoch_gradient [OF assms] opt_steps_count len)
qed

lemma samples_step:
  assumes "0 < capacity (mem s)" and "b \<noteq> []"
  shows "samples (added s (snd (train_step model rnd step b s))) =
     (if (step + 1) mod REPLAY_FREQ = 0 then [(64, memory (push rnd (mem s) b))] else [])"
  by (simp add: added_step_ok [OF assms] samples_def)

lemma loop_samples:
  assumes "0 < capacity (mem s)" and "\<forall>b\<in>set bs. b \<noteq> []"
  shows "samples (added s (snd (train_loop model rnd step bs s))) =
         map (\<lambda>im. (64, memory (snd im)))
           (filter (\<lambda>im. (fst im + 1) mod REPLAY_FREQ = 0)
              (zip [step..<step + length bs] (memories rnd step (mem s) bs)))"
  using assms
proof (induction bs arbitrary: step s)
  case Nil
  show ?case by (simp add: added_def samples_def)
next
  case (Cons b bs)
  have b: "b \<noteq> []" using Cons.prems(2) by simp
  let ?s1 = "snd (train_step model rnd step b s)"
  have ih: "samples (added ?s1 (snd (train_loop model rnd (Suc step) bs ?s1))) =
         map (\<lambda>im. (64, memory (snd im)))
           (filter (\<lambda>im. (fst im + 1) mod REPLAY_FREQ = 0)
              (zip [Suc step..<Suc step + length bs] (memories rnd (Suc step) (mem ?s1) bs)))"
    by (rule Cons.IH) (use Cons.prems in simp_all)
  have eq: "step + length (b # bs) = Suc step + length bs" by simp
  have up: "[step..<step + length (b # bs)] = step # [Suc step..<Suc step + length bs]"
    unfolding eq by (rule upt_conv_Cons) simp
  show ?case
    unfolding added_loop_Cons [OF Cons.prems(1) b] samples_append ih up
      memories_Cons [where model = model] samples_step [OF Cons.prems(1) b]
    by simp
qed

lemma epoch_samples:
  assumes "0 < capacity (mem s)" and "\<forall>b\<in>set bs. b \<noteq> []"
  shows "samples (added s (snd (train_epoch model rnd order bs epoch s))) =
         map (\<lambda>im. (64, memory (snd im)))
           (filter (\<lambda>im. (fst im + 1) mod REPLAY_FREQ = 0)
              (zip [0..<length bs] (memories rnd 0 (mem s) bs)))"
proof -
  let ?s0 = "s\<lparr>nb_tr_examples := 0, nb_tr_steps := 0\<rparr>"
  have c0: "0 < capacity (mem ?s0)" using assms(1) by simp
  obtain ext where "added s (snd (train_epoch model rnd order bs epoch s)) =
           added ?s0 (snd (train_loop model rnd 0 bs ?s0)) @ ext" and "samples ext = []"
    using epoch_added [OF assms, of model rnd order epoch] by blast
  then show ?thesis
    using loop_samples [OF c0 assms(2), of model rnd 0] by simp
qed

lemma epoch_pushes:
  assumes "0 < capacity (mem s)" and "\<forall>b\<in>set bs. b \<noteq> []"
  shows "pushes (added s (snd (train_epoch model rnd order bs epoch s))) = bs"
proof -
  let ?s0 = "s\<lparr>nb_tr_examples := 0, nb_tr_steps := 0\<rparr>"
  have c0: "0 < capacity (mem ?s0)" using assms(1) by simp
  obtain ext where "added s (snd (train_epoch model rnd order bs epoch s)) =
           added ?s0 (snd (train_loop model rnd 0 bs ?s0)) @ ext" and "pushes ext = []"
    using epoch_added [OF assms, of model rnd order epoch] by blast
  then show ?thesis
    using loop_pushes [OF c0 assms(2), of model rnd 0] by simp
qed

lemma epoch_result:
  assumes "0 < capacity (mem s)" and "\<forall>b\<in>set bs. b \<noteq> []"
  shows "fst (train_epoch model rnd order bs epoch s) =
         (if bs = [] then Some ZeroDivisionError else None)"
  by (simp add: train_epoch_ok [OF assms] Let_def)

text \<open>
  C6.  In an epoch over a memory of positive capacity and non-empty batches, which
  raises nothing unless the data loader is empty: every batch of the data loader is
  pushed into the memory, in order, and \<open>memory.sample\<close> is called at the replay steps
  only, on the memory as the push of the step left it; the batch trained on at a step is
  the batch of the data loader or, at a replay step, the batch \<open>memory.sample\<close>
  returned; the calls of the gradient step are, for each batch trained on in turn,
  \<open>optimizer.zero_grad()\<close>, \<open>model.classify\<close> on that batch, \<open>loss.backward()\<close>
  and \<open>optimizer.step()\<close>, in this order and nothing else; there is exactly one
  \<open>optimizer.step()\<close> for each batch of the data loader; and the trainable state
  after the epoch is the state at its start updated once with each of the batches
  trained on.
\<close>

theorem one_update_per_batch:
  assumes "0 < capacity (mem s)" and "\<forall>b\<in>set train_dataloader. b \<noteq> []"
  shows "(let r = train_epoch model rnd order train_dataloader epoch s;
              s' = snd r;
              tr = added s s';
              cs = classified tr;
              ms = memories rnd 0 (mem s) train_dataloader;
              M = length train_dataloader
          in fst r = (if train_dataloader = [] then Some ZeroDivisionError else None) \<and>
             pushes tr = train_dataloader \<and>
             samples tr =
               map (\<lambda>im. (64, memory (snd im)))
                 (filter (\<lambda>im. (fst im + 1) mod REPLAY_FREQ = 0) (zip [0..<M] ms)) \<and>
             filter is_gradient_event tr = concat (map gradient_step cs) \<and>
             length (filter (\<lambda>e. e = EvOptStep) tr) = M \<and>
             list_all2 (trains_as rnd) cs (zip [0..<M] (zip train_dataloader ms)) \<and>
             params s' = foldl (apply_step model) (params s) (map snd cs))"
  unfolding Let_def
  by (intro conjI epoch_result [OF assms] epoch_pushes [OF assms] epoch_samples [OF assms]
        epoch_gradient [OF assms] epoch_opt_steps [OF assms]
        epoch_classified [OF assms] epoch_params [OF assms])

theorem one_update_per_batch_witness:
  "0 < capacity (mem (fresh 100)) \<and> [] \<notin> set (singles 360) \<and>
   length (filter (\<lambda>e. e = EvOptStep)
     (added (fresh 100) (snd (train_epoch model0 (\<lambda>n. n) 1 (singles 360) 0 (fresh 100))))) = 360 \<and>
   pushes (added (fresh 100) (snd (train_epoch model0 (\<lambda>n. n) 1 (singles 360) 0 (fresh 100)))) =
     singles 360"
proof -
  have h1: "0 < capacity (mem (fresh 100))" by (simp add: fresh_def ReplayMemory_def)
  have h2: "\<forall>b\<in>set (singles 360). b \<noteq> []" by (simp add: singles_def)
  have len: "length (singles 360) = 360" by (simp add: singles_def)
  note t = one_update_per_batch [OF h1 h2, of model0 "\<lambda>n. n" 1 0, unfolded Let_def]
  note p = t [THEN conjunct2, THEN conjunct1]
  note u = t [THEN conjunct2, THEN conjunct2, THEN conjunct2, THEN conjunct2, THEN conjunct1,
      unfolded len]
  have h2': "[] \<notin> set (singles 360)" using h2 by blast
  show ?thesis by (intro conjI h1 h2' u p)
qed

lemma step_plot:
  "filter is_plot_event (trace (snd (train_step model rnd step b s))) =
   filter is_plot_event (trace s)"
  by (simp add: train_step_def Let_def sample_def is_plot_event_def split: prod.splits sum.splits)

lemma loop_plot:
  "filter is_plot_event (trace (snd (train_loop model rnd step bs s))) =
   filter is_plot_event (trace s)"
proof (induction bs arbitrary: step s)
  case Nil
  show ?case by simp
next
  case (Cons b bs)
  obtain r s1 where st: "train_step model rnd step b s = (r, s1)"
    by (cases "train_step model rnd step b s")
  have p1: "filter is_plot_event (trace s1) = filter is_plot_event (trace s)"
    using step_plot [of model rnd step b s] st by simp
  show ?case
    using st p1 Cons.IH [of "Suc step" s1] by (cases r) simp_all
qed

lemma save_checkpoint_plot:
  "filter is_plot_event (trace (save_checkpoint d ord e marg barg s)) =
   filter is_plot_event (trace s)"
  by (cases marg)
     (simp_all add: save_checkpoint_def Let_def os_mkdir_def torch_save_def np_save_def
        is_plot_event_def)

lemma epoch_plot:
  "filter is_plot_event (trace (snd (train_epoch model rnd order bs epoch s))) =
   filter is_plot_event (trace s)"
proof -
  let ?s0 = "s\<lparr>nb_tr_examples := 0, nb_tr_steps := 0\<rparr>"
  obtain r s1 where lp: "train_loop model rnd 0 bs ?s0 = (r, s1)"
    by (cases "train_loop model rnd 0 bs ?s0")
  have p1: "filter is_plot_event (trace s1) = filter is_plot_event (trace s)"
    using loop_plot [of model rnd 0 bs ?s0] lp by simp
  show ?thesis
    by (cases r)
       (simp_all add: train_epoch_def lp p1 Let_def save_checkpoint_plot is_plot_event_def)
qed

lemma epochs_plot:
  "filter is_plot_event (trace (snd (train_epochs model rnd order bs es s))) =
   filter is_plot_event (trace s)"
proof (induction es arbitrary: s)
  case Nil
  show ?case by simp
next
  case (Cons e es)
  obtain r s1 where ep: "train_epoch model rnd order bs e s = (r, s1)"
    by (cases "train_epoch model rnd order bs e s")
  have p1: "filter is_plot_event (trace s1) = filter is_plot_event (trace s)"
    using epoch_plot [of model rnd order bs e s] ep by simp
  show ?case
    using ep p1 Cons.IH [of s1] by (cases r) simp_all
qed

lemma epoch_capacity [simp]:
  "capacity (mem (snd (train_epoch model rnd order bs epoch s))) = capacity (mem s)"
proof -
  let ?s0 = "s\<lparr>nb_tr_examples := 0, nb_tr_steps := 0\<rparr>"
  obtain r s1 where lp: "train_loop model rnd 0 bs ?s0 = (r, s1)"
    by (cases "train_loop model rnd 0 bs ?s0")
  have c1: "capacity (mem s1) = capacity (mem s)"
    using loop_capacity [of model rnd 0 bs ?s0] lp by simp
  show ?thesis
    by (cases r) (simp_all add: train_epoch_def lp c1 Let_def)
qed

lemma epoch_completes:
  assumes "0 < capacity (mem s)" and "\<forall>b\<in>set bs. b \<noteq> []" and "bs \<noteq> []"
  shows "fst (train_epoch model rnd order bs epoch s) = None"
  using assms(3) by (simp add: train_epoch_ok [OF assms(1,2)] Let_def)

lemma epochs_Cons_ok:
  assumes "0 < capacity (mem s)" and "\<forall>b\<in>set bs. b \<noteq> []" and "bs \<noteq> []"
  shows "train_epochs model rnd order bs (e # es) s =
         train_epochs model rnd order bs es (snd (train_epoch model rnd order bs e s))"
  using epoch_completes [OF assms, of model rnd order e]
  by (cases "train_epoch model rnd order bs e s") simp

lemma epochs_complete:
  assumes "0 < capacity (mem s)" and "\<forall>b\<in>set bs. b \<noteq> []" and "bs \<noteq> []"
  shows "fst (train_epochs model rnd order bs es s) = None"
  using assms(1)
proof (induction es arbitrary: s)
  case Nil
  show ?case by simp
next
  case (Cons e es)
  show ?case
    unfolding epochs_Cons_ok [OF Cons.prems assms(2,3)]
    by (rule Cons.IH) (use Cons.prems in simp)
qed

text \<open>
  C9.  When all the epochs of a training run complete, \<open>train\<close> raises \<open>TypeError\<close> at
  the call of \<open>save_trainloss\<close> and leaves the state as the last epoch left it, the
  checkpoints written included; and no run of \<open>train\<close>, completed or not, draws or
  saves the loss plot.
\<close>

theorem save_trainloss_type_error:
  "(let r = train_epochs model rnd order train_dataloader [0..<nat epochs]
              (s\<lparr>train_loss_set := []\<rparr>)
    in (fst r = None \<longrightarrow>
          train model rnd train_dataloader epochs order s = (Some TypeError, snd r)) \<and>
       fst (train model rnd train_dataloader epochs order s) \<noteq> None \<and>
       filter is_plot_event (trace (snd (train model rnd train_dataloader epochs order s))) =
         filter is_plot_event (trace s))"
proof -
  let ?s0 = "s\<lparr>train_loss_set := []\<rparr>"
  obtain r s1 where ep: "train_epochs model rnd order train_dataloader [0..<nat epochs] ?s0 = (r, s1)"
    by (cases "train_epochs model rnd order train_dataloader [0..<nat epochs] ?s0")
  have p1: "filter is_plot_event (trace s1) = filter is_plot_event (trace s)"
    using epochs_plot [of model rnd order train_dataloader "[0..<nat epochs]" ?s0] ep by simp
  show ?thesis
    unfolding Let_def train_def ep
    by (cases r) (simp_all add: save_trainloss_def p1)
qed

theorem save_trainloss_type_error_witness:
  "fst (train_epochs model0 (\<lambda>n. n) 1 (singles 2) [0..<nat 3]
          ((fresh 100)\<lparr>train_loss_set := []\<rparr>)) = None \<and>
   train model0 (\<lambda>n. n) (singles 2) 3 1 (fresh 100) =
     (Some TypeError,
      snd (train_epochs model0 (\<lambda>n. n) 1 (singles 2) [0..<nat 3]
             ((fresh 100)\<lparr>train_loss_set := []\<rparr>)))"
proof -
  have h1: "0 < capacity (mem ((fresh 100)\<lparr>train_loss_set := []\<rparr>))"
    by (simp add: fresh_def ReplayMemory_def)
  have h2: "\<forall>b\<in>set (singles 2). b \<noteq> []" by (simp add: singles_def)
  have h3: "singles 2 \<noteq> []" by (simp add: singles_def)
  have a: "fst (train_epochs model0 (\<lambda>n. n) 1 (singles 2) [0..<nat 3]
          ((fresh 100)\<lparr>train_loss_set := []\<rparr>)) = None"
    by (rule epochs_complete [OF h1 h2 h3])
  note t = save_trainloss_type_error [of model0 "\<lambda>n. n" 1 "singles 2" 3 "fresh 100",
      unfolded Let_def, THEN conjunct1, THEN mp, OF a]
  show ?thesis by (intro conjI a t)
qed



























lemma EncDec_unbound: "lookup_name ''EncDec'' = Some NameError"
  by (simp add: lookup_name_def module_names_def)

lemma main_test:
  "main ''test'' order epochs model C rnd train_dataloader test_dataloader s =
     (case torch_load ''../model_checkpoints/enc_dec/classifier_order_1_epoch_4.pth'' s of
        Inl e \<Rightarrow> (Some e, s)
      | Inr model_state \<Rightarrow> (Some NameError, s))"
  by (simp add: main_def EncDec_unbound split: sum.splits)

text \<open>
  C10 (amended).  A run in mode \<open>test\<close> never reaches the evaluation and changes nothing:
  it first loads the checkpoint \<^verbatim>\<open>enc_dec/classifier_order_1_epoch_4.pth\<close> (line 216) and
  fails with the error of \<open>torch.load\<close> when that fails; when the checkpoint loads, it
  fails with \<open>NameError\<close> at the name \<open>EncDec\<close> (line 218).
\<close>

theorem test_mode_fails:
  "(let r = main ''test'' order epochs model C rnd train_dataloader test_dataloader s;
        loaded = torch_load ''../model_checkpoints/enc_dec/classifier_order_1_epoch_4.pth'' s
    in snd r = s \<and>
       fst r = (case loaded of Inl e \<Rightarrow> Some e | Inr model_state \<Rightarrow> Some NameError))"
  unfolding Let_def main_test by (simp split: sum.splits)

theorem test_mode_fails_witness:
  "main ''test'' 1 4 model0 100 (\<lambda>n. n) (singles 2) (singles 2)
     ((fresh 100)\<lparr>files :=
         [''../model_checkpoints/enc_dec/classifier_order_1_epoch_4.pth'' \<mapsto> ModelDict 7]\<rparr>) =
   (Some NameError,
    (fresh 100)\<lparr>files :=
         [''../model_checkpoints/enc_dec/classifier_order_1_epoch_4.pth'' \<mapsto> ModelDict 7]\<rparr>)"
proof -
  let ?s = "(fresh 100)\<lparr>files :=
         [''../model_checkpoints/enc_dec/classifier_order_1_epoch_4.pth'' \<mapsto> ModelDict 7]\<rparr>"
  have l: "torch_load ''../model_checkpoints/enc_dec/classifier_order_1_epoch_4.pth'' ?s = Inr 7"
    by (simp add: torch_load_def)
  note t = test_mode_fails [of 1 4 model0 100 "\<lambda>n. n" "singles 2" "singles 2" ?s,
      unfolded Let_def l]
  from t have a: "snd (main ''test'' 1 4 model0 100 (\<lambda>n. n) (singles 2) (singles 2) ?s) = ?s"
    by (rule conjunct1)
  from t have b: "fst (main ''test'' 1 4 model0 100 (\<lambda>n. n) (singles 2) (singles 2) ?s) =
      Some NameError" by simp
  show ?thesis using a b by (simp add: prod_eq_iff)
qed

theorem test_mode_fails_counterexample:
  "fst (main ''test'' 1 4 model0 100 (\<lambda>n. n) (singles 2) (singles 2) (fresh 100)) =
     Some FileNotFoundError \<and>
   fst (main ''test'' 1 4 model0 100 (\<lambda>n. n) (singles 2) (singles 2) (fresh 100)) \<noteq>
     Some NameError"
proof -
  have l: "torch_load ''../model_checkpoints/enc_dec/classifier_order_1_epoch_4.pth'' (fresh 100) =
      Inl FileNotFoundError"
    by (simp add: torch_load_def fresh_def)
  show ?thesis unfolding main_test l by simp
qed

lemma argmax_from_greatest:
  assumes "length pre = i" and "best_i < i" and "pre ! best_i = best"
    and "\<forall>j<i. pre ! j \<le> best" and "\<forall>j<best_i. pre ! j < best"
  shows "argmax_from best_i best i xs < length (pre @ xs) \<and>
         (\<forall>j<length (pre @ xs). (pre @ xs) ! j \<le> (pre @ xs) ! argmax_from best_i best i xs) \<and>
         (\<forall>j<argmax_from best_i best i xs. (pre @ xs) ! j < (pre @ xs) ! argmax_from best_i best i xs)"
  using assms
proof (induction xs arbitrary: pre i best_i best)
  case Nil
  then show ?case by simp
next
  case (Cons x xs)
  have app: "pre @ x # xs = (pre @ [x]) @ xs" by simp
  show ?case
  proof (cases "best < x")
    case True
    have "argmax_from i x (Suc i) xs < length ((pre @ [x]) @ xs) \<and>
         (\<forall>j<length ((pre @ [x]) @ xs). ((pre @ [x]) @ xs) ! j \<le> ((pre @ [x]) @ xs) ! argmax_from i x (Suc i) xs) \<and>
         (\<forall>j<argmax_from i x (Suc i) xs. ((pre @ [x]) @ xs) ! j < ((pre @ [x]) @ xs) ! argmax_from i x (Suc i) xs)"
    proof (rule Cons.IH)
      show "length (pre @ [x]) = Suc i" using Cons.prems(1) by simp
      show "i < Suc i" by simp
      show "(pre @ [x]) ! i = x" using Cons.prems(1) by (simp add: nth_append)
      show "\<forall>j<Suc i. (pre @ [x]) ! j \<le> x"
        using Cons.prems(1,4) True by (auto simp add: nth_append less_Suc_eq)
      show "\<forall>j<i. (pre @ [x]) ! j < x"
        using Cons.prems(1,4) True by (auto simp add: nth_append)
    qed
    then show ?thesis unfolding app using True by simp
  next
    case False
    have "argmax_from best_i best (Suc i) xs < length ((pre @ [x]) @ xs) \<and>
         (\<forall>j<length ((pre @ [x]) @ xs). ((pre @ [x]) @ xs) ! j \<le> ((pre @ [x]) @ xs) ! argmax_from best_i best (Suc i) xs) \<and>
         (\<forall>j<argmax_from best_i best (Suc i) xs. ((pre @ [x]) @ xs) ! j < ((pre @ [x]) @ xs) ! argmax_from best_i best (Suc i) xs)"
    proof (rule Cons.IH)
      show "length (pre @ [x]) = Suc i" using Cons.prems(1) by simp
      show "best_i < Suc i" using Cons.prems(2) by simp
      show "(pre @ [x]) ! best_i = best" using Cons.prems(1,2,3) by (simp add: nth_append)
      show "\<forall>j<Suc i. (pre @ [x]) ! j \<le> best"
        using Cons.prems(1,4) False by (auto simp add: nth_append less_Suc_eq)
      show "\<forall>j<best_i. (pre @ [x]) ! j < best"
        using Cons.prems(1,2,5) by (auto simp add: nth_append)
    qed
    then show ?thesis unfolding app using False by simp
  qed
qed

lemma argmax_greatest:
  assumes "row \<noteq> []"
  shows "argmax row < length row \<and> (\<forall>j<length row. row ! j \<le> row ! argmax row) \<and>
         (\<forall>j<argmax row. row ! j < row ! argmax row)"
proof -
  obtain x xs where row: "row = x # xs" using assms by (cases row) auto
  have "argmax_from 0 x 1 xs < length ([x] @ xs) \<and>
         (\<forall>j<length ([x] @ xs). ([x] @ xs) ! j \<le> ([x] @ xs) ! argmax_from 0 x 1 xs) \<and>
         (\<forall>j<argmax_from 0 x 1 xs. ([x] @ xs) ! j < ([x] @ xs) ! argmax_from 0 x 1 xs)"
    by (rule argmax_from_greatest) simp_all
  then show ?thesis by (simp add: row argmax_def)
qed

lemma flat_accuracy_batch:
  assumes "length (infer model p (map (\<lambda>e. (content e, attention_mask e)) b)) = length b"
    and "[] \<notin> set (infer model p (map (\<lambda>e. (content e, attention_mask e)) b))"
  shows "flat_accuracy (infer model p (map (\<lambda>e. (content e, attention_mask e)) b)) (map label b) =
         Inr (batch_accuracy model p b)"
proof -
  let ?preds = "infer model p (map (\<lambda>e. (content e, attention_mask e)) b)"
  have "filter (\<lambda>(p, l). int p = l) (zip (map argmax ?preds) (map label b)) =
        filter (\<lambda>(p, l). int p = l) (map (\<lambda>(row, e). (argmax row, label e)) (zip ?preds b))"
    by (simp add: zip_map_map)
  then have "length (filter (\<lambda>(p, l). int p = l) (zip (map argmax ?preds) (map label b))) =
        length (filter (\<lambda>(prediction, e). int (argmax prediction) = label e) (zip ?preds b))"
    by (simp add: filter_map comp_def case_prod_unfold)
  then show ?thesis
    using assms by (simp add: flat_accuracy_def Let_def batch_accuracy_def)
qed

lemma test_loop_ok:
  assumes "\<forall>b\<in>set bs. length (infer model p (map (\<lambda>e. (content e, attention_mask e)) b)) = length b \<and>
                      [] \<notin> set (infer model p (map (\<lambda>e. (content e, attention_mask e)) b))"
  shows "test_loop model p bs (total_correct, t_steps, tr) =
     (None, total_correct + sum_list (map (batch_accuracy model p) bs), t_steps + length bs,
      tr @ map (\<lambda>b. EvInfer (map (\<lambda>e. (content e, attention_mask e)) b)) bs)"
  using assms
proof (induction bs arbitrary: total_correct t_steps tr)
  case Nil
  show ?case by simp
next
  case (Cons b bs)
  have fa: "flat_accuracy (infer model p (map (\<lambda>e. (content e, attention_mask e)) b)) (map label b) =
         Inr (batch_accuracy model p b)"
    by (rule flat_accuracy_batch) (use Cons.prems in simp_all)
  have ih: "\<And>tc n t. test_loop model p bs (tc, n, t) =
     (None, tc + sum_list (map (batch_accuracy model p) bs), n + length bs,
      t @ map (\<lambda>b. EvInfer (map (\<lambda>e. (content e, attention_mask e)) b)) bs)"
    by (rule Cons.IH) (use Cons.prems in simp)
  show ?case by (simp add: Let_def fa ih add.assoc)
qed


text \<open>
  C5.  Over a non-empty held-out stream of non-empty batches, for a model that returns
  one non-empty row of logits for each example, \<open>test\<close> reports the arithmetic mean
  over the batches of the per-batch accuracy (the number of examples whose label is
  the \<open>argmax\<close> of their row of logits, over the size of the batch).  Its only calls
  are one \<open>model.infer\<close> for each batch, in order; and \<open>argmax\<close> is the position of
  a greatest logit of the row.
\<close>

theorem evaluator_mean_accuracy:
  assumes "test_dataloader \<noteq> []" and "\<forall>b\<in>set test_dataloader. b \<noteq> []"
    and "\<forall>b\<in>set test_dataloader.
           length (infer model p (map (\<lambda>e. (content e, attention_mask e)) b)) = length b \<and>
           [] \<notin> set (infer model p (map (\<lambda>e. (content e, attention_mask e)) b))"
  shows "test model p test_dataloader tr =
           (Inr (mean_accuracy model p test_dataloader),
            tr @ map (\<lambda>b. EvInfer (map (\<lambda>e. (content e, attention_mask e)) b)) test_dataloader) \<and>
         (\<forall>b\<in>set test_dataloader.
            \<forall>row\<in>set (infer model p (map (\<lambda>e. (content e, attention_mask e)) b)).
              argmax row < length row \<and> (\<forall>x\<in>set row. x \<le> row ! argmax row))"
proof -
  have lp: "test_loop model p test_dataloader (0, 0, tr) =
     (None, 0 + sum_list (map (batch_accuracy model p) test_dataloader),
      0 + length test_dataloader,
      tr @ map (\<lambda>b. EvInfer (map (\<lambda>e. (content e, attention_mask e)) b)) test_dataloader)"
    by (rule test_loop_ok [OF assms(3)])
  have a: "test model p test_dataloader tr =
           (Inr (mean_accuracy model p test_dataloader),
            tr @ map (\<lambda>b. EvInfer (map (\<lambda>e. (content e, attention_mask e)) b)) test_dataloader)"
    using assms(1) by (simp add: test_def lp mean_accuracy_def)
  have b: "\<forall>b\<in>set test_dataloader.
            \<forall>row\<in>set (infer model p (map (\<lambda>e. (content e, attention_mask e)) b)).
              argmax row < length row \<and> (\<forall>x\<in>set row. x \<le> row ! argmax row)"
  proof (intro ballI)
    fix b row
    assume "b \<in> set test_dataloader"
      and row: "row \<in> set (infer model p (map (\<lambda>e. (content e, attention_mask e)) b))"
    with assms(3) have "row \<noteq> []" by auto
    then have g: "argmax row < length row \<and> (\<forall>j<length row. row ! j \<le> row ! argmax row)"
      using argmax_greatest [of row] by blast
    then show "argmax row < length row \<and> (\<forall>x\<in>set row. x \<le> row ! argmax row)"
      by (auto simp add: in_set_conv_nth)
  qed
  show ?thesis by (intro conjI a b)
qed

theorem evaluator_mean_accuracy_witness:
  "test model0 0 [[ex 1, ex 0], [ex 1], [ex 0, ex 2, ex 1, ex 1], [ex 5]] [] =
     (Inr ((1 / 2 + 1 + 2 / 4 + 0) / 4),
      [EvInfer [([1], [1]), ([0], [1])], EvInfer [([1], [1])],
       EvInfer [([0], [1]), ([2], [1]), ([1], [1]), ([1], [1])], EvInfer [([5], [1])]])"
proof -
  let ?dl = "[[ex 1, ex 0], [ex 1], [ex 0, ex 2, ex 1, ex 1], [ex 5]]"
  have h1: "?dl \<noteq> []" by simp
  have h2: "\<forall>b\<in>set ?dl. b \<noteq> []" by simp
  have h3: "\<forall>b\<in>set ?dl.
           length (infer model0 0 (map (\<lambda>e. (content e, attention_mask e)) b)) = length b \<and>
           [] \<notin> set (infer model0 0 (map (\<lambda>e. (content e, attention_mask e)) b))"
    by (simp add: model0_def)
  note t = evaluator_mean_accuracy [OF h1 h2 h3, of "[]", THEN conjunct1]
  have m: "mean_accuracy model0 0 ?dl = (1 / 2 + 1 + 2 / 4 + 0) / 4"
    by (simp add: mean_accuracy_def batch_accuracy_def model0_def ex_def argmax_def)
  show ?thesis unfolding t m by (simp add: ex_def)
qed

lemma zip_upt_nth:
  "length ms = n \<Longrightarrow> zip [0..<n] ms = map (\<lambda>i. (i, ms ! i)) [0..<n]"
  by (simp add: list_eq_iff_nth_eq)

lemma one_based:
  "map (\<lambda>i. f (i - 1)) (filter (\<lambda>i. i mod P = 0) [1..<Suc M]) =
   map f (filter (\<lambda>i. (i + 1) mod P = 0) [0..<M])"
proof -
  have "[1..<Suc M] = map Suc [0..<M]" by (simp add: map_Suc_upt)
  then show ?thesis by (simp add: filter_map comp_def)
qed

lemma epoch_samples_indexed:
  assumes "0 < capacity (mem s)" and "\<forall>b\<in>set bs. b \<noteq> []"
  shows "samples (added s (snd (train_epoch model rnd order bs epoch s))) =
         map (\<lambda>i. (64, memory (memories rnd 0 (mem s) bs ! (i - 1))))
           (filter (\<lambda>i. i mod 180 = 0) [1..<Suc (length bs)])"
proof -
  have "samples (added s (snd (train_epoch model rnd order bs epoch s))) =
         map (\<lambda>i. (64, memory (memories rnd 0 (mem s) bs ! i)))
           (filter (\<lambda>i. (i + 1) mod 180 = 0) [0..<length bs])"
    unfolding epoch_samples [OF assms]
      zip_upt_nth [of "memories rnd 0 (mem s) bs" "length bs", OF length_memories]
    by (simp add: filter_map comp_def REPLAY_FREQ_def)
  then show ?thesis
    unfolding one_based [where f = "\<lambda>i. (64, memory (memories rnd 0 (mem s) bs ! i))"] .
qed

lemma epoch_classified_indexed:
  assumes "0 < capacity (mem s)" and "\<forall>b\<in>set bs. b \<noteq> []"
    and "1 \<le> i" and "i \<le> length bs"
  shows "(i mod 180 = 0 \<longrightarrow>
            fst (classified (added s (snd (train_epoch model rnd order bs epoch s))) ! (i - 1)) =
              Replay \<and>
            fst (sample rnd (memories rnd 0 (mem s) bs ! (i - 1)) 64) =
              Inr (snd (classified (added s (snd (train_epoch model rnd order bs epoch s))) !
                          (i - 1)))) \<and>
         (i mod 180 \<noteq> 0 \<longrightarrow>
            classified (added s (snd (train_epoch model rnd order bs epoch s))) ! (i - 1) =
              (Live, bs ! (i - 1)))"
proof -
  let ?cs = "classified (added s (snd (train_epoch model rnd order bs epoch s)))"
  let ?ys = "zip [0..<length bs] (zip bs (memories rnd 0 (mem s) bs))"
  have all2: "list_all2 (trains_as rnd) ?cs ?ys" by (rule epoch_classified [OF assms(1,2)])
  have j: "i - 1 < length ?ys" using assms(3,4) by simp
  have "trains_as rnd (?cs ! (i - 1)) (?ys ! (i - 1))"
    using all2 j by (rule list_all2_nthD2)
  moreover have "?ys ! (i - 1) = (i - 1, bs ! (i - 1), memories rnd 0 (mem s) bs ! (i - 1))"
    using assms(3,4) by simp
  ultimately have "trains_as rnd (?cs ! (i - 1))
      (i - 1, bs ! (i - 1), memories rnd 0 (mem s) bs ! (i - 1))" by simp
  then show ?thesis using assms(3) by (simp add: trains_as_def REPLAY_FREQ_def)
qed

text \<open>
  C1.  An epoch over a memory of positive capacity and non-empty batches raises nothing
  unless the data loader is empty, pushes every batch and trains once at every step:
  the step at 1-based index \<open>i\<close> trains, when \<open>i mod 180 = 0\<close>, on the batch that
  \<open>memory.sample(sample_size=64)\<close> returns on the memory as the push of the step left
  it, and otherwise on the batch of the data loader; \<open>memory.sample\<close> is called at
  these steps only.  Of \<open>M\<close> steps, \<open>M div 180\<close> are replay-trained and
  \<open>M - M div 180\<close> are live-trained; for \<open>M = 360\<close> the replay steps are the steps
  180 and 360.
\<close>

theorem replay_periodicity:
  assumes "0 < capacity (mem s)" and "\<forall>b\<in>set train_dataloader. b \<noteq> []"
  shows "(let r = train_epoch model rnd order train_dataloader epoch s;
              tr = added s (snd r);
              cs = classified tr;
              srcs = sources tr;
              ms = memories rnd 0 (mem s) train_dataloader;
              M = length train_dataloader
          in fst r = (if train_dataloader = [] then Some ZeroDivisionError else None) \<and>
             pushes tr = train_dataloader \<and>
             samples tr =
               map (\<lambda>i. (64, memory (ms ! (i - 1)))) (filter (\<lambda>i. i mod 180 = 0) [1..<Suc M]) \<and>
             length cs = M \<and>
             (\<forall>i. 1 \<le> i \<and> i \<le> M \<longrightarrow>
                  (i mod 180 = 0 \<longrightarrow>
                     fst (cs ! (i - 1)) = Replay \<and>
                     fst (sample rnd (ms ! (i - 1)) 64) = Inr (snd (cs ! (i - 1)))) \<and>
                  (i mod 180 \<noteq> 0 \<longrightarrow> cs ! (i - 1) = (Live, train_dataloader ! (i - 1)))) \<and>
             filter is_gradient_event tr = concat (map gradient_step cs) \<and>
             length srcs = M \<and>
             (\<forall>i. 1 \<le> i \<and> i \<le> M \<longrightarrow>
                  (srcs ! (i - 1) = Replay \<longleftrightarrow> i mod 180 = 0) \<and>
                  (srcs ! (i - 1) = Live \<longleftrightarrow> i mod 180 \<noteq> 0)) \<and>
             length (filter (\<lambda>x. x = Replay) srcs) = M div 180 \<and>
             length (filter (\<lambda>x. x = Live) srcs) = M - M div 180 \<and>
             (M = 360 \<longrightarrow> filter (\<lambda>i. srcs ! (i - 1) = Replay) [1..<Suc M] = [180, 360]))"
proof -
  let ?M = "length train_dataloader"
  let ?f = "\<lambda>i. if (i + 1) mod 180 = 0 then Replay else Live"
  let ?r = "train_epoch model rnd order train_dataloader epoch s"
  let ?tr = "added s (snd ?r)"
  let ?cs = "classified ?tr"
  let ?srcs = "sources ?tr"
  let ?ms = "memories rnd 0 (mem s) train_dataloader"
  have res: "fst ?r = (if train_dataloader = [] then Some ZeroDivisionError else None)"
    by (rule epoch_result [OF assms])
  have psh: "pushes ?tr = train_dataloader" by (rule epoch_pushes [OF assms])
  have smp: "samples ?tr =
      map (\<lambda>i. (64, memory (?ms ! (i - 1)))) (filter (\<lambda>i. i mod 180 = 0) [1..<Suc ?M])"
    by (rule epoch_samples_indexed [OF assms])
  have "length ?cs = length (zip [0..<?M] (zip train_dataloader ?ms))"
    using epoch_classified [OF assms, where model = model and order = order and epoch = epoch] by (rule list_all2_lengthD)
  then have lcs: "length ?cs = ?M" by simp
  have per: "\<forall>i. 1 \<le> i \<and> i \<le> ?M \<longrightarrow>
                  (i mod 180 = 0 \<longrightarrow>
                     fst (?cs ! (i - 1)) = Replay \<and>
                     fst (sample rnd (?ms ! (i - 1)) 64) = Inr (snd (?cs ! (i - 1)))) \<and>
                  (i mod 180 \<noteq> 0 \<longrightarrow> ?cs ! (i - 1) = (Live, train_dataloader ! (i - 1)))"
  proof (intro allI impI)
    fix i
    assume "1 \<le> i \<and> i \<le> ?M"
    then have a: "1 \<le> i" and b: "i \<le> ?M" by simp_all
    show "(i mod 180 = 0 \<longrightarrow>
             fst (?cs ! (i - 1)) = Replay \<and>
             fst (sample rnd (?ms ! (i - 1)) 64) = Inr (snd (?cs ! (i - 1)))) \<and>
          (i mod 180 \<noteq> 0 \<longrightarrow> ?cs ! (i - 1) = (Live, train_dataloader ! (i - 1)))"
      by (rule epoch_classified_indexed [OF assms a b])
  qed
  have grd: "filter is_gradient_event ?tr = concat (map gradient_step ?cs)"
    by (rule epoch_gradient [OF assms])
  have srcs: "?srcs = map ?f [0..<?M]"
    using epoch_sources [OF assms, of model rnd order epoch] by (simp add: REPLAY_FREQ_def)
  have len: "length ?srcs = ?M" by (simp add: srcs)
  have nth: "\<And>i. 1 \<le> i \<Longrightarrow> i \<le> ?M \<Longrightarrow> ?srcs ! (i - 1) = (if i mod 180 = 0 then Replay else Live)"
    by (simp add: srcs)
  have pt: "\<forall>i. 1 \<le> i \<and> i \<le> ?M \<longrightarrow>
                  (?srcs ! (i - 1) = Replay \<longleftrightarrow> i mod 180 = 0) \<and>
                  (?srcs ! (i - 1) = Live \<longleftrightarrow> i mod 180 \<noteq> 0)"
    using nth by simp
  have rep: "length (filter (\<lambda>x. x = Replay) ?srcs) = ?M div 180"
    using count_multiples [of 180 ?M] by (simp add: srcs filter_map comp_def)
  have "length (filter (\<lambda>x. x = Live) ?srcs) + length (filter (\<lambda>x. x = Replay) ?srcs) = ?M"
    using count_sources [of ?srcs] len by simp
  with rep have live: "length (filter (\<lambda>x. x = Live) ?srcs) = ?M - ?M div 180" by simp
  have scen: "?M = 360 \<longrightarrow> filter (\<lambda>i. ?srcs ! (i - 1) = Replay) [1..<Suc ?M] = [180, 360]"
  proof
    assume M: "?M = 360"
    have "filter (\<lambda>i. ?srcs ! (i - 1) = Replay) [1..<Suc ?M] =
          filter (\<lambda>i. i mod 180 = 0) [1..<Suc ?M]"
    proof (rule filter_cong [OF refl])
      fix x
      assume "x \<in> set [1..<Suc ?M]"
      then have x: "1 \<le> x" "x \<le> ?M" by auto
      have "?srcs ! (x - 1) = (if x mod 180 = 0 then Replay else Live)"
        using x by (rule nth)
      then show "(?srcs ! (x - 1) = Replay) = (x mod 180 = 0)" by simp
    qed
    also have "\<dots> = filter (\<lambda>i. i mod 180 = 0) [1..<361]"
      unfolding M by (simp only: Suc_numeral semiring_norm)
    also have "\<dots> = [180, 360]" by (rule multiples_upto_360)
    finally show "filter (\<lambda>i. ?srcs ! (i - 1) = Replay) [1..<Suc ?M] = [180, 360]" .
  qed
  show ?thesis
    unfolding Let_def by (intro conjI res psh smp lcs per grd len pt rep live scen)
qed

theorem replay_periodicity_witness:
  "0 < capacity (mem (fresh 100)) \<and> [] \<notin> set (singles 360) \<and>
   length (singles 360) = 360 \<and>
   fst (train_epoch model0 (\<lambda>n. n) 1 (singles 360) 0 (fresh 100)) = None \<and>
   length (filter (\<lambda>x. x = Replay)
     (sources (added (fresh 100)
        (snd (train_epoch model0 (\<lambda>n. n) 1 (singles 360) 0 (fresh 100)))))) =
     length (singles 360) div 180 \<and>
   filter (\<lambda>i. sources (added (fresh 100)
        (snd (train_epoch model0 (\<lambda>n. n) 1 (singles 360) 0 (fresh 100)))) ! (i - 1) = Replay)
     [1..<Suc (length (singles 360))] = [180, 360]"
proof -
  have h1: "0 < capacity (mem (fresh 100))" by (simp add: fresh_def ReplayMemory_def)
  have h2: "\<forall>b\<in>set (singles 360). b \<noteq> []" by (simp add: singles_def)
  have h2': "[] \<notin> set (singles 360)" using h2 by blast
  have len: "length (singles 360) = 360" by (simp add: singles_def)
  have ne: "singles 360 \<noteq> []" using len by auto
  note t = replay_periodicity [OF h1 h2, of model0 "\<lambda>n. n" 1 0, unfolded Let_def]
  have res: "fst (train_epoch model0 (\<lambda>n. n) 1 (singles 360) 0 (fresh 100)) = None"
    using t [THEN conjunct1] ne by simp
  note tail = t [THEN conjunct2, THEN conjunct2, THEN conjunct2, THEN conjunct2,
      THEN conjunct2, THEN conjunct2, THEN conjunct2, THEN conjunct2]
  note rep = tail [THEN conjunct1]
  note scen = tail [THEN conjunct2, THEN conjunct2, THEN mp, OF len]
  show ?thesis by (intro conjI h1 h2' len res rep scen)
qed

lemma length_push_lower:
  assumes "b \<noteq> []"
  shows "min (capacity m) (length (memory m) + 1) \<le> length (memory (push rnd m b))"
proof -
  obtain e es where b: "b = e # es" using assms by (cases b) auto
  have "min (capacity m) (length (memory m) + 1) \<le> length (memory (push_example rnd m e))"
    by (simp add: length_push_example)
  also have "\<dots> \<le> length (memory (push rnd (push_example rnd m e) es))"
    by (rule length_push_mono)
  finally show ?thesis by (simp add: b)
qed

lemma append_split_at:
  assumes "xs @ ys = pre @ e # post"
  shows "(\<exists>u. xs = pre @ e # u) \<or> (\<exists>u. pre = xs @ u \<and> ys = u @ e # post)"
  using assms by (auto simp add: append_eq_append_conv2 append_eq_Cons_conv)

lemma step_sample_context:
  assumes "0 < capacity (mem s)" and "b \<noteq> []"
    and "added s (snd (train_step model rnd step b s)) = pre @ EvSample k xs # post"
  shows "(step + 1) mod REPLAY_FREQ = 0 \<and> pre = [EvPush b] \<and> k = 64 \<and>
         xs = memory (push rnd (mem s) b)"
proof (cases "(step + 1) mod REPLAY_FREQ = 0")
  case True
  have "[EvPush b, EvSample 64 (memory (push rnd (mem s) b)),
            EvZeroGrad, EvClassify Replay (drawn rnd (push rnd (mem s) b) 64),
            EvBackward, EvOptStep] = pre @ EvSample k xs # post"
    using assms(3) True unfolding added_step_ok [OF assms(1,2)] by simp
  then show ?thesis using True by (auto simp add: Cons_eq_append_conv)
next
  case False
  have "[EvPush b, EvZeroGrad, EvClassify Live b, EvBackward, EvOptStep] =
        pre @ EvSample k xs # post"
    using assms(3) False unfolding added_step_ok [OF assms(1,2)] by simp
  then show ?thesis by (auto simp add: Cons_eq_append_conv)
qed

lemma step_pushes:
  assumes "0 < capacity (mem s)" and "b \<noteq> []"
  shows "pushes (added s (snd (train_step model rnd step b s))) = [b]"
  by (simp add: added_step_ok [OF assms] pushes_def)


lemma loop_sample_context:
  assumes "0 < capacity (mem s)" and "\<forall>b\<in>set bs. b \<noteq> []"
    and "added s (snd (train_loop model rnd step bs s)) = pre @ EvSample k xs # post"
  shows "\<exists>n pre'. n < length bs \<and> pre = pre' @ [EvPush (bs ! n)] \<and>
           pushes pre = take (Suc n) bs \<and> (step + Suc n) mod REPLAY_FREQ = 0 \<and> k = 64 \<and>
           min (capacity (mem s)) (length (memory (mem s)) + Suc n) \<le> length xs \<and>
           (length xs < capacity (mem s) \<longrightarrow> (\<exists>old. xs = old @ bs ! n))"
  using assms
proof (induction bs arbitrary: step s pre)
  case Nil
  then show ?case by (simp add: added_def)
next
  case (Cons b bs)
  have b: "b \<noteq> []" using Cons.prems(2) by simp
  let ?s1 = "snd (train_step model rnd step b s)"
  let ?t1 = "added s ?s1"
  let ?t2 = "added ?s1 (snd (train_loop model rnd (Suc step) bs ?s1))"
  let ?C = "capacity (mem s)"
  let ?h = "length (memory (mem s))"
  have c1: "0 < capacity (mem ?s1)" using Cons.prems(1) by simp
  have ne: "\<forall>b\<in>set bs. b \<noteq> []" using Cons.prems(2) by simp
  have dec: "?t1 @ ?t2 = pre @ EvSample k xs # post"
    using Cons.prems(3) unfolding added_loop_Cons [OF Cons.prems(1) b] .
  have low: "min ?C (?h + 1) \<le> length (memory (push rnd (mem s) b))"
    by (rule length_push_lower [OF b])
  from append_split_at [OF dec] show ?case
  proof
    assume "\<exists>u. ?t1 = pre @ EvSample k xs # u"
    then obtain u where u: "?t1 = pre @ EvSample k xs # u" ..
    have ctx: "(step + 1) mod REPLAY_FREQ = 0 \<and> pre = [EvPush b] \<and> k = 64 \<and>
         xs = memory (push rnd (mem s) b)"
      by (rule step_sample_context [OF Cons.prems(1) b u])
    have app: "length xs < ?C \<longrightarrow> (\<exists>old. xs = old @ b)"
    proof
      assume "length xs < ?C"
      then have "memory (push rnd (mem s) b) = memory (mem s) @ b"
        using ctx by (intro push_appends) simp
      then show "\<exists>old. xs = old @ b" using ctx by blast
    qed
    have f: "0 < length (b # bs) \<and> pre = [] @ [EvPush ((b # bs) ! 0)] \<and>
           pushes pre = take (Suc 0) (b # bs) \<and> (step + Suc 0) mod REPLAY_FREQ = 0 \<and> k = 64 \<and>
           min ?C (?h + Suc 0) \<le> length xs \<and>
           (length xs < ?C \<longrightarrow> (\<exists>old. xs = old @ (b # bs) ! 0))"
      using ctx low app by (simp add: pushes_def)
    show ?thesis by (rule exI [of _ 0], rule exI [of _ "[]"], rule f)
  next
    assume "\<exists>u. pre = ?t1 @ u \<and> ?t2 = u @ EvSample k xs # post"
    then obtain u where pre: "pre = ?t1 @ u" and u: "?t2 = u @ EvSample k xs # post" by blast
    have "\<exists>n pre'. n < length bs \<and> u = pre' @ [EvPush (bs ! n)] \<and>
           pushes u = take (Suc n) bs \<and> (Suc step + Suc n) mod REPLAY_FREQ = 0 \<and> k = 64 \<and>
           min (capacity (mem ?s1)) (length (memory (mem ?s1)) + Suc n) \<le> length xs \<and>
           (length xs < capacity (mem ?s1) \<longrightarrow> (\<exists>old. xs = old @ bs ! n))"
      by (rule Cons.IH [OF c1 ne u])
    then obtain n pre' where ih: "n < length bs \<and> u = pre' @ [EvPush (bs ! n)] \<and>
           pushes u = take (Suc n) bs \<and> (Suc step + Suc n) mod REPLAY_FREQ = 0 \<and> k = 64 \<and>
           min (capacity (mem ?s1)) (length (memory (mem ?s1)) + Suc n) \<le> length xs \<and>
           (length xs < capacity (mem ?s1) \<longrightarrow> (\<exists>old. xs = old @ bs ! n))"
      by (elim exE) (rule that)
    note n = ih [THEN conjunct1]
    note u' = ih [THEN conjunct2, THEN conjunct1]
    note pu = ih [THEN conjunct2, THEN conjunct2, THEN conjunct1]
    note md = ih [THEN conjunct2, THEN conjunct2, THEN conjunct2, THEN conjunct1]
    note k = ih [THEN conjunct2, THEN conjunct2, THEN conjunct2, THEN conjunct2, THEN conjunct1]
    note lo = ih [THEN conjunct2, THEN conjunct2, THEN conjunct2, THEN conjunct2, THEN conjunct2,
        THEN conjunct1]
    note ap = ih [THEN conjunct2, THEN conjunct2, THEN conjunct2, THEN conjunct2, THEN conjunct2,
        THEN conjunct2]
    have lo': "min ?C (?h + Suc (Suc n)) \<le> length xs"
      using lo low by simp
    have g: "Suc n < length (b # bs) \<and> pre = (?t1 @ pre') @ [EvPush ((b # bs) ! Suc n)] \<and>
           pushes pre = take (Suc (Suc n)) (b # bs) \<and>
           (step + Suc (Suc n)) mod REPLAY_FREQ = 0 \<and> k = 64 \<and>
           min ?C (?h + Suc (Suc n)) \<le> length xs \<and>
           (length xs < ?C \<longrightarrow> (\<exists>old. xs = old @ (b # bs) ! Suc n))"
      using n pre u' pu md k lo' ap
      by (simp add: step_pushes [OF Cons.prems(1) b])
    show ?thesis by (rule exI [of _ "Suc n"], rule exI [of _ "?t1 @ pre'"], rule g)
  qed
qed





lemma no_sample_tail:
  assumes "samples ext = []"
  shows "ext \<noteq> u @ EvSample k xs # post"
proof
  assume "ext = u @ EvSample k xs # post"
  then have "samples ext = samples u @ (k, xs) # samples post"
    by (simp add: samples_def)
  with assms show False by simp
qed


lemma epoch_sample_context:
  assumes "0 < capacity (mem s)" and "\<forall>b\<in>set bs. b \<noteq> []"
    and "added s (snd (train_epoch model rnd order bs epoch s)) = pre @ EvSample k xs # post"
  shows "\<exists>n pre'. n < length bs \<and> pre = pre' @ [EvPush (bs ! n)] \<and>
           pushes pre = take (Suc n) bs \<and> (0 + Suc n) mod REPLAY_FREQ = 0 \<and> k = 64 \<and>
           min (capacity (mem s)) (length (memory (mem s)) + Suc n) \<le> length xs \<and>
           (length xs < capacity (mem s) \<longrightarrow> (\<exists>old. xs = old @ bs ! n))"
proof -
  let ?s0 = "s\<lparr>nb_tr_examples := 0, nb_tr_steps := 0\<rparr>"
  let ?A = "added ?s0 (snd (train_loop model rnd 0 bs ?s0))"
  have c0: "0 < capacity (mem ?s0)" using assms(1) by simp
  obtain ext where a: "added s (snd (train_epoch model rnd order bs epoch s)) = ?A @ ext"
      and se: "samples ext = []"
    using epoch_added [OF assms(1,2), of model rnd order epoch] by blast
  have "?A @ ext = pre @ EvSample k xs # post" using assms(3) unfolding a .
  from append_split_at [OF this] have "\<exists>u. ?A = pre @ EvSample k xs # u"
    using no_sample_tail [OF se] by blast
  then obtain u where u: "?A = pre @ EvSample k xs # u" ..
  show ?thesis
    using loop_sample_context [OF c0 assms(2) u] by simp
qed



lemma epoch_samples_count:
  assumes "0 < capacity (mem s)" and "\<forall>b\<in>set bs. b \<noteq> []"
  shows "length (samples (added s (snd (train_epoch model rnd order bs epoch s)))) =
         length bs div REPLAY_FREQ"
proof -
  have "length (samples (added s (snd (train_epoch model rnd order bs epoch s)))) =
        length (filter (\<lambda>i. (i + 1) mod REPLAY_FREQ = 0) [0..<length bs])"
    unfolding epoch_samples [OF assms]
      zip_upt_nth [of "memories rnd 0 (mem s) bs" "length bs", OF length_memories]
    by (simp add: filter_map comp_def)
  then show ?thesis using count_multiples [of REPLAY_FREQ "length bs"]
    by (simp add: REPLAY_FREQ_def)
qed

text \<open>
  C4 (amended).  In an epoch over a memory of positive capacity and non-empty batches,
  \<open>memory.sample\<close> is never called on an empty memory and the epoch does not raise the
  empty-memory error: the replay period is positive, and whenever \<open>memory.sample\<close> is
  called the call just before it is a push, at least 180 batches have been pushed in the
  epoch, and the memory holds at least the smaller of its capacity and 180 examples.
  There is one such call for every 180 batches.
\<close>

theorem sample_never_on_empty_memory:
  assumes "0 < capacity (mem s)" and "\<forall>b\<in>set train_dataloader. b \<noteq> []"
  shows "(let r = train_epoch model rnd order train_dataloader epoch s;
              tr = added s (snd r)
          in 0 < REPLAY_FREQ \<and>
             fst r \<noteq> Some EmptyMemory \<and>
             (\<forall>pre k xs post. tr = pre @ EvSample k xs # post \<longrightarrow>
                xs \<noteq> [] \<and> (\<exists>pre' b. pre = pre' @ [EvPush b]) \<and>
                REPLAY_FREQ \<le> length (pushes pre) \<and>
                min (capacity (mem s)) REPLAY_FREQ \<le> length xs) \<and>
             length (samples tr) = length train_dataloader div REPLAY_FREQ)"
proof -
  let ?r = "train_epoch model rnd order train_dataloader epoch s"
  let ?tr = "added s (snd ?r)"
  have a: "0 < REPLAY_FREQ" by (simp add: REPLAY_FREQ_def)
  have b: "fst ?r \<noteq> Some EmptyMemory" by (simp add: epoch_result [OF assms])
  have c: "\<forall>pre k xs post. ?tr = pre @ EvSample k xs # post \<longrightarrow>
                xs \<noteq> [] \<and> (\<exists>pre' b. pre = pre' @ [EvPush b]) \<and>
                REPLAY_FREQ \<le> length (pushes pre) \<and>
                min (capacity (mem s)) REPLAY_FREQ \<le> length xs"
  proof (intro allI impI)
    fix pre k xs post
    assume dec: "?tr = pre @ EvSample k xs # post"
    have "\<exists>n pre'. n < length train_dataloader \<and> pre = pre' @ [EvPush (train_dataloader ! n)] \<and>
           pushes pre = take (Suc n) train_dataloader \<and> (0 + Suc n) mod REPLAY_FREQ = 0 \<and> k = 64 \<and>
           min (capacity (mem s)) (length (memory (mem s)) + Suc n) \<le> length xs \<and>
           (length xs < capacity (mem s) \<longrightarrow> (\<exists>old. xs = old @ train_dataloader ! n))"
      by (rule epoch_sample_context [OF assms dec])
    then obtain n pre' where ctx: "n < length train_dataloader \<and>
           pre = pre' @ [EvPush (train_dataloader ! n)] \<and>
           pushes pre = take (Suc n) train_dataloader \<and> (0 + Suc n) mod REPLAY_FREQ = 0 \<and> k = 64 \<and>
           min (capacity (mem s)) (length (memory (mem s)) + Suc n) \<le> length xs \<and>
           (length xs < capacity (mem s) \<longrightarrow> (\<exists>old. xs = old @ train_dataloader ! n))"
      by (elim exE) (rule that)
    note n = ctx [THEN conjunct1]
    note pre = ctx [THEN conjunct2, THEN conjunct1]
    note pu = ctx [THEN conjunct2, THEN conjunct2, THEN conjunct1]
    note md = ctx [THEN conjunct2, THEN conjunct2, THEN conjunct2, THEN conjunct1]
    note lo = ctx [THEN conjunct2, THEN conjunct2, THEN conjunct2, THEN conjunct2, THEN conjunct2,
        THEN conjunct1]
    have ge: "REPLAY_FREQ \<le> Suc n"
      using md by (simp add: REPLAY_FREQ_def) presburger
    have len: "length (pushes pre) = Suc n" using n by (simp add: pu)
    have low: "min (capacity (mem s)) REPLAY_FREQ \<le> length xs" using lo ge by simp
    have "0 < min (capacity (mem s)) REPLAY_FREQ" using assms(1) a by simp
    with low have ne: "xs \<noteq> []" by auto
    have ex: "\<exists>pre' b. pre = pre' @ [EvPush b]" using pre by blast
    show "xs \<noteq> [] \<and> (\<exists>pre' b. pre = pre' @ [EvPush b]) \<and>
                REPLAY_FREQ \<le> length (pushes pre) \<and>
                min (capacity (mem s)) REPLAY_FREQ \<le> length xs"
      using ne ex ge low unfolding len by (intro conjI)
  qed
  have d: "length (samples ?tr) = length train_dataloader div REPLAY_FREQ"
    by (rule epoch_samples_count [OF assms])
  show ?thesis unfolding Let_def by (intro conjI a b c d)
qed



lemma sample_keeps [simp]:
  "memory (snd (sample rnd m k)) = memory m"
  "capacity (snd (sample rnd m k)) = capacity m"
  "seen (snd (sample rnd m k)) = seen m"
  by (simp_all add: sample_def)

lemma memories_length:
  assumes "length (memory m) \<le> capacity m" and "i < length bs"
  shows "length (memory (memories rnd step m bs ! i)) =
         min (capacity m) (length (memory m) + length (concat (take (Suc i) bs)))"
  using assms
proof (induction bs arbitrary: step m i)
  case Nil
  then show ?case by simp
next
  case (Cons b bs)
  let ?m1 = "push rnd m b"
  let ?m2 = "if (step + 1) mod REPLAY_FREQ = 0 then snd (sample rnd ?m1 64) else ?m1"
  have l1: "length (memory ?m1) = min (capacity m) (length (memory m) + length b)"
    by (rule length_push [OF Cons.prems(1)])
  have l2: "length (memory ?m2) = min (capacity m) (length (memory m) + length b)"
    using l1 by simp
  have c2: "capacity ?m2 = capacity m" by simp
  show ?case
  proof (cases i)
    case 0
    then show ?thesis using l1 by (simp add: Let_def)
  next
    case (Suc j)
    have j: "j < length bs" using Cons.prems(2) Suc by simp
    have inv: "length (memory ?m2) \<le> capacity ?m2" unfolding l2 c2 by simp
    have "length (memory (memories rnd (Suc step) ?m2 bs ! j)) =
          min (capacity ?m2) (length (memory ?m2) + length (concat (take (Suc j) bs)))"
      by (rule Cons.IH [OF inv j])
    then have "length (memory (memories rnd (Suc step) ?m2 bs ! j)) =
          min (capacity m) (length (memory m) + length b + length (concat (take (Suc j) bs)))"
      unfolding l2 c2 by simp
    then show ?thesis using Suc by (simp add: Let_def)
  qed
qed



lemma multiples_upto_180: "filter (\<lambda>i. i mod 180 = 0) [1..<181] = [180::nat]"
proof -
  have a: "[1..<181] = [1..<180] @ [180::nat]"
    using upt_add_eq_append [of 1 180 1] by simp
  have e1: "filter (\<lambda>i. i mod 180 = 0) [1..<180::nat] = []"
    by (auto simp add: filter_empty_conv)
  show ?thesis unfolding a filter_append e1 by simp
qed


lemma epoch_samples_180:
  assumes "0 < capacity (mem s)" and "\<forall>b\<in>set bs. b \<noteq> []" and "length bs = 180"
  shows "samples (added s (snd (train_epoch model rnd order bs epoch s))) =
         [(64, memory (memories rnd 0 (mem s) bs ! 179))]"
proof -
  have "samples (added s (snd (train_epoch model rnd order bs epoch s))) =
         map (\<lambda>i. (64, memory (memories rnd 0 (mem s) bs ! (i - 1))))
           (filter (\<lambda>i. i mod 180 = 0) [1..<181])"
    unfolding epoch_samples_indexed [OF assms(1,2)] assms(3)
    by (simp only: Suc_numeral semiring_norm)
  then show ?thesis unfolding multiples_upto_180 by simp
qed

theorem sample_never_on_empty_memory_witness:
  "0 < capacity (mem (fresh 100)) \<and> [] \<notin> set (singles 360) \<and>
   fst (train_epoch model0 (\<lambda>n. n) 1 (singles 360) 0 (fresh 100)) \<noteq> Some EmptyMemory \<and>
   length (samples (added (fresh 100)
     (snd (train_epoch model0 (\<lambda>n. n) 1 (singles 360) 0 (fresh 100))))) = 2"
proof -
  have h1: "0 < capacity (mem (fresh 100))" by (simp add: fresh_def ReplayMemory_def)
  have h2: "\<forall>b\<in>set (singles 360). b \<noteq> []" by (simp add: singles_def)
  have h2': "[] \<notin> set (singles 360)" using h2 by blast
  have len: "length (singles 360) = 360" by (simp add: singles_def)
  note t = sample_never_on_empty_memory [OF h1 h2, of model0 "\<lambda>n. n" 1 0, unfolded Let_def]
  note a = t [THEN conjunct2, THEN conjunct1]
  have b: "length (samples (added (fresh 100)
     (snd (train_epoch model0 (\<lambda>n. n) 1 (singles 360) 0 (fresh 100))))) = 2"
    using t [THEN conjunct2, THEN conjunct2, THEN conjunct2] by (simp add: len REPLAY_FREQ_def)
  show ?thesis by (intro conjI h1 h2' a b)
qed

theorem sample_never_on_empty_memory_counterexample:
  "pushes (added (fresh 100) (snd (train_epoch model0 (\<lambda>n. n) 1 (singles 180) 0 (fresh 100)))) =
     singles 180 \<and>
   length (singles 180) = 180 \<and>
   map (\<lambda>ks. length (snd ks))
     (samples (added (fresh 100)
        (snd (train_epoch model0 (\<lambda>n. n) 1 (singles 180) 0 (fresh 100))))) = [100]"
proof -
  have h1: "0 < capacity (mem (fresh 100))" by (simp add: fresh_def ReplayMemory_def)
  have h2: "\<forall>b\<in>set (singles 180). b \<noteq> []" by (simp add: singles_def)
  have len: "length (singles 180) = 180" by (simp add: singles_def)
  have inv: "length (memory (mem (fresh 100))) \<le> capacity (mem (fresh 100))"
    by (simp add: fresh_def ReplayMemory_def)
  have i: "179 < length (singles 180)" by (simp add: len)
  have tk: "length (concat (take (Suc 179) (singles 180))) = 180"
    by (simp add: singles_def length_concat comp_def)
  have sz: "length (memory (memories (\<lambda>n. n) 0 (mem (fresh 100)) (singles 180) ! 179)) = 100"
    unfolding memories_length [OF inv i] tk by (simp add: fresh_def ReplayMemory_def)
  have a: "pushes (added (fresh 100)
      (snd (train_epoch model0 (\<lambda>n. n) 1 (singles 180) 0 (fresh 100)))) = singles 180"
    by (rule epoch_pushes [OF h1 h2])
  have c: "map (\<lambda>ks. length (snd ks))
     (samples (added (fresh 100)
        (snd (train_epoch model0 (\<lambda>n. n) 1 (singles 180) 0 (fresh 100))))) = [100]"
    unfolding epoch_samples_180 [OF h1 h2 len] using sz by simp
  show ?thesis by (intro conjI a len c)
qed



end
